theory Spec2Isabelle
  imports Complex_Main
begin

section \<open>The Miller-Rabin prime checker of truncatable\_primes.py\<close>

text \<open>
  The development embeds the class \<open>MillerRabinPrimeChecker\<close>: the constructor, \<open>IsPrime\<close>,
  \<open>_IsDefinitelyComposite\<close> and \<open>_GetBasesGenAndReporter\<close> with its nested \<open>Reporter\<close>.
  Python integers are \<open>int\<close>. Leading underscores of the source's names are dropped.
\<close>

subsection \<open>Floating point\<close>

text \<open>
  The error budget is kept in Python floats (IEEE binary64): a finite value, which is a
  real number, one of the two infinities, or NaN.
\<close>

datatype pyfloat = Finite real | PosInf | NegInf | NaN

text \<open>Python's \<open>x <= y\<close> on floats; a comparison with NaN is false.\<close>

fun fle :: "pyfloat \<Rightarrow> pyfloat \<Rightarrow> bool" where
  "fle (Finite x) (Finite y) = (x \<le> y)"
| "fle (Finite x) PosInf = True"
| "fle NegInf (Finite y) = True"
| "fle NegInf NegInf = True"
| "fle NegInf PosInf = True"
| "fle PosInf PosInf = True"
| "fle _ _ = False"

text \<open>
  An arithmetic operation on finite floats returns the rounding of the exact result, or
  an infinity when that is beyond the largest finite float. The rounding function, the
  largest finite float and the library logarithm \<open>math.log(x, 4)\<close> at a finite positive
  \<open>x\<close> are parameters of the model, so that nothing proved below depends on arithmetic
  being exact.
\<close>

record float_ops =
  rnd :: "real \<Rightarrow> real"
  max_float :: real
  log4 :: "real \<Rightarrow> real"

definition fl :: "float_ops \<Rightarrow> real \<Rightarrow> pyfloat" where
  "fl F x =
     (if max_float F < rnd F x then PosInf
      else if rnd F x < - max_float F then NegInf
      else Finite (rnd F x))"

text \<open>\<open>x - y\<close>, \<open>x + y\<close> and \<open>- x\<close> on floats.\<close>

fun fsub :: "float_ops \<Rightarrow> pyfloat \<Rightarrow> pyfloat \<Rightarrow> pyfloat" where
  "fsub F (Finite x) (Finite y) = fl F (x - y)"
| "fsub F (Finite x) PosInf = NegInf"
| "fsub F (Finite x) NegInf = PosInf"
| "fsub F PosInf (Finite y) = PosInf"
| "fsub F PosInf NegInf = PosInf"
| "fsub F NegInf (Finite y) = NegInf"
| "fsub F NegInf PosInf = NegInf"
| "fsub F _ _ = NaN"

fun fadd :: "float_ops \<Rightarrow> pyfloat \<Rightarrow> pyfloat \<Rightarrow> pyfloat" where
  "fadd F (Finite x) (Finite y) = fl F (x + y)"
| "fadd F (Finite x) PosInf = PosInf"
| "fadd F (Finite x) NegInf = NegInf"
| "fadd F PosInf (Finite y) = PosInf"
| "fadd F PosInf PosInf = PosInf"
| "fadd F NegInf (Finite y) = NegInf"
| "fadd F NegInf NegInf = NegInf"
| "fadd F _ _ = NaN"

fun fneg :: "pyfloat \<Rightarrow> pyfloat" where
  "fneg (Finite x) = Finite (- x)"
| "fneg PosInf = NegInf"
| "fneg NegInf = PosInf"
| "fneg NaN = NaN"

subsection \<open>Exceptions\<close>

datatype py_error = ValueError | OverflowError | ZeroDivisionError

text \<open>
  \<open>float(n)\<close> for an integer \<open>n\<close>: the rounding of \<open>n\<close>, or \<open>OverflowError\<close> when it is
  too large for a float. The result is finite.
\<close>

definition float_of_int :: "float_ops \<Rightarrow> int \<Rightarrow> py_error + real" where
  "float_of_int F n =
     (if max_float F < \<bar>rnd F (of_int n)\<bar> then Inl OverflowError
      else Inr (rnd F (of_int n)))"

text \<open>\<open>x / d\<close> for a float \<open>x\<close> and a finite float \<open>d\<close>.\<close>

definition fdiv :: "float_ops \<Rightarrow> pyfloat \<Rightarrow> real \<Rightarrow> py_error + pyfloat" where
  "fdiv F x d =
     (if d = 0 then Inl ZeroDivisionError
      else Inr (case x of
                  Finite v \<Rightarrow> fl F (v / d)
                | PosInf \<Rightarrow> (if 0 < d then PosInf else NegInf)
                | NegInf \<Rightarrow> (if 0 < d then NegInf else PosInf)
                | NaN \<Rightarrow> NaN))"

text \<open>
  \<open>math.log(x, 4)\<close>: \<open>ValueError\<close> on an argument that is not positive, the infinity at
  the infinity, NaN at NaN.
\<close>

fun math_log4 :: "float_ops \<Rightarrow> pyfloat \<Rightarrow> py_error + pyfloat" where
  "math_log4 F (Finite x) = (if x \<le> 0 then Inl ValueError else Inr (Finite (log4 F x)))"
| "math_log4 F PosInf = Inr PosInf"
| "math_log4 F NegInf = Inl ValueError"
| "math_log4 F NaN = Inr NaN"

text \<open>
  \<open>int(math.ceil(v))\<close>: the ceiling of a finite \<open>v\<close>, \<open>OverflowError\<close> at an infinity,
  \<open>ValueError\<close> at NaN.
\<close>

fun ceil_int :: "pyfloat \<Rightarrow> py_error + int" where
  "ceil_int (Finite v) = Inr \<lceil>v\<rceil>"
| "ceil_int PosInf = Inl OverflowError"
| "ceil_int NegInf = Inl OverflowError"
| "ceil_int NaN = Inl ValueError"

subsection \<open>The checker object\<close>

text \<open>
  The constructor stores its argument as it is, so the ceiling is a float or, when the
  caller passes one, an integer. \<open>_cumulative_error_sofar\<close> starts as the integer 0, which
  acts as the float 0 in every operation below, and is a float from the first addition on.
\<close>

datatype pynum = PyInt int | PyFloat pyfloat

record checker =
  max_cumulative_error :: pynum
  cumulative_error_sofar :: pyfloat
  error_opportunity_count :: int

text \<open>\<open>__init__\<close>\<close>

definition init :: "pynum \<Rightarrow> checker" where
  "init max_cumulative_error_probability =
     \<lparr>max_cumulative_error = max_cumulative_error_probability,
      cumulative_error_sofar = Finite 0,
      error_opportunity_count = 0\<rparr>"

subsection \<open>The single-witness test\<close>

text \<open>The builtin \<open>pow(base, d, n)\<close>, for an exponent that is not negative.\<close>

definition pow :: "int \<Rightarrow> int \<Rightarrow> int \<Rightarrow> int" where
  "pow base d n = (base ^ nat d) mod n"

text \<open>The loop \<open>for _ in range(r)\<close> of \<open>_IsDefinitelyComposite\<close>, from the current \<open>x\<close>.\<close>

fun squaring_loop :: "int \<Rightarrow> int \<Rightarrow> nat \<Rightarrow> bool" where
  "squaring_loop x n 0 = True"
| "squaring_loop x n (Suc i) =
     (if x = n - 1 then False else squaring_loop ((x * x) mod n) n i)"

definition IsDefinitelyComposite :: "int \<Rightarrow> int \<Rightarrow> int \<Rightarrow> nat \<Rightarrow> bool" where
  "IsDefinitelyComposite base n d r =
     (let x = pow base d n in
      if x = 1 then False else squaring_loop x n r)"

subsection \<open>Bases and reporter\<close>

text \<open>
  The reporter is either \<open>lambda x: None\<close> or the bound method \<open>Report\<close> of a fresh
  \<open>Reporter\<close>, which closes over the allowance of this call and carries \<open>_reported\<close>.
\<close>

datatype reporter = NoopReporter | Reporter pyfloat bool

fun Report :: "float_ops \<Rightarrow> reporter \<Rightarrow> bool \<Rightarrow> checker \<Rightarrow> reporter \<times> checker" where
  "Report F NoopReporter is_prime c = (NoopReporter, c)"
| "Report F (Reporter a reported) is_prime c =
     (Reporter a True,
      if is_prime
      then c\<lparr>cumulative_error_sofar := fadd F (cumulative_error_sofar c) a,
             error_opportunity_count := error_opportunity_count c + 1\<rparr>
      else c)"

text \<open>
  A call \<open>reporter(x)\<close>. Next to the checker it takes the list of the arguments of the
  calls made so far, and adds its own: the list is what an observer of the reporter sees.
\<close>

definition call_reporter ::
  "float_ops \<Rightarrow> reporter \<Rightarrow> bool \<Rightarrow> checker \<times> bool list \<Rightarrow> reporter \<times> checker \<times> bool list" where
  "call_reporter F reporter x s =
     (let (reporter', c') = Report F reporter x (fst s)
      in (reporter', c', snd s @ [x]))"

text \<open>The assertion of \<open>Reporter.__del__\<close>.\<close>

fun del_assertion :: "reporter \<Rightarrow> bool" where
  "del_assertion NoopReporter = True"
| "del_assertion (Reporter a reported) = reported"

text \<open>
  The ceiling as the float the subtraction works on: an integer ceiling is converted,
  which raises when it is too large.
\<close>

fun as_float :: "float_ops \<Rightarrow> pynum \<Rightarrow> py_error + pyfloat" where
  "as_float F (PyFloat x) = Inr x"
| "as_float F (PyInt n) =
     (case float_of_int F n of Inl e \<Rightarrow> Inl e | Inr v \<Rightarrow> Inr (Finite v))"

text \<open>
  \<open>(self._max_cumulative_error - self._cumulative_error_sofar)
  / float(max(100, self._error_opportunity_count))\<close>
\<close>

definition acceptable_error_probability :: "float_ops \<Rightarrow> checker \<Rightarrow> py_error + pyfloat" where
  "acceptable_error_probability F c =
     (case as_float F (max_cumulative_error c) of
        Inl e \<Rightarrow> Inl e
      | Inr m \<Rightarrow>
          (case float_of_int F (max 100 (error_opportunity_count c)) of
             Inl e \<Rightarrow> Inl e
           | Inr d \<Rightarrow> fdiv F (fsub F m (cumulative_error_sofar c)) d))"

text \<open>\<open>int(math.ceil(-math.log(a, 4)))\<close>\<close>

definition witness_count :: "float_ops \<Rightarrow> pyfloat \<Rightarrow> py_error + int" where
  "witness_count F a =
     (case math_log4 F a of
        Inl e \<Rightarrow> Inl e
      | Inr v \<Rightarrow> ceil_int (fneg v))"

text \<open>
  \<open>draw i\<close> is what the \<open>i\<close>-th \<open>random.randint(1, n - 1)\<close> of this call returns. The
  generator yields \<open>draw 0\<close>, ..., \<open>draw (k - 1)\<close> (nothing when \<open>k \<le> 0\<close>). The set
  comprehension of the other branch is listed in increasing order; the loop that consumes
  it does not depend on the order.
\<close>

definition GetBasesGenAndReporter ::
  "float_ops \<Rightarrow> checker \<Rightarrow> (nat \<Rightarrow> int) \<Rightarrow> int \<Rightarrow> py_error + (int list \<times> reporter)" where
  "GetBasesGenAndReporter F c draw n =
     (if n < 3215031751 then Inr (filter (\<lambda>x. x < n) [2, 3, 5, 7], NoopReporter)
      else
        case acceptable_error_probability F c of
          Inl e \<Rightarrow> Inl e
        | Inr a \<Rightarrow>
            (case witness_count F a of
               Inl e \<Rightarrow> Inl e
             | Inr k \<Rightarrow> Inr (map draw [0..<nat k], Reporter a False)))"

subsection \<open>IsPrime\<close>

text \<open>
  The loop \<open>while d % 2 == 0: r += 1; d //= 2\<close>. It does not terminate from \<open>d = 0\<close>,
  so it is a partial function; \<open>None\<close> is divergence.
\<close>

partial_function (option) halving_loop :: "int \<Rightarrow> nat \<Rightarrow> (int \<times> nat) option" where
  "halving_loop d r =
     (if d mod 2 = 0 then halving_loop (d div 2) (r + 1) else Some (d, r))"

text \<open>The loop over the bases: \<open>result\<close> when it is left.\<close>

fun bases_loop :: "int list \<Rightarrow> int \<Rightarrow> int \<Rightarrow> nat \<Rightarrow> bool" where
  "bases_loop [] n d r = True"
| "bases_loop (base # bases) n d r =
     (if IsDefinitelyComposite base n d r then False else bases_loop bases n d r)"

text \<open>
  What a call that returns leaves behind: the verdict, the checker, the arguments of the
  calls of the reporter as \<open>call_reporter\<close> collected them, and the reporter as it is when
  the call ends (\<open>None\<close> when none was made).
\<close>

record call_result =
  verdict :: bool
  checker_after :: checker
  reports :: "bool list"
  reporter_after :: "reporter option"

definition IsPrime ::
  "float_ops \<Rightarrow> checker \<Rightarrow> (nat \<Rightarrow> int) \<Rightarrow> int \<Rightarrow> (py_error + call_result) option" where
  "IsPrime F c draw n =
     (if n = 2 then
        Some (Inr \<lparr>verdict = True, checker_after = c, reports = [], reporter_after = None\<rparr>)
      else if n \<le> 1 then
        Some (Inr \<lparr>verdict = False, checker_after = c, reports = [], reporter_after = None\<rparr>)
      else if n mod 2 = 0 then
        Some (Inr \<lparr>verdict = False, checker_after = c, reports = [], reporter_after = None\<rparr>)
      else
        case halving_loop (n - 1) 0 of
          None \<Rightarrow> None
        | Some (d, r) \<Rightarrow>
            (case GetBasesGenAndReporter F c draw n of
               Inl e \<Rightarrow> Some (Inl e)
             | Inr (bases_gen, reporter) \<Rightarrow>
                 let result = bases_loop bases_gen n d r;
                     (reporter', c', calls) = call_reporter F reporter result (c, [])
                 in Some (Inr \<lparr>verdict = result, checker_after = c',
                               reports = calls, reporter_after = Some reporter'\<rparr>)))"

text \<open>
  The checker after a call. An exception leaves it as it was: every one is raised
  before \<open>Report\<close> runs.
\<close>

definition after_call :: "float_ops \<Rightarrow> checker \<Rightarrow> (nat \<Rightarrow> int) \<times> int \<Rightarrow> checker" where
  "after_call F c call =
     (case IsPrime F c (fst call) (snd call) of
        Some (Inr res) \<Rightarrow> checker_after res
      | _ \<Rightarrow> c)"

text \<open>The checker after a sequence of calls on the same object.\<close>

definition after_calls :: "float_ops \<Rightarrow> checker \<Rightarrow> ((nat \<Rightarrow> int) \<times> int) list \<Rightarrow> checker" where
  "after_calls F c calls = foldl (after_call F) c calls"

subsection \<open>What is assumed of the arithmetic\<close>

text \<open>
  What the proofs use of binary64 rounding to nearest: it is monotone, it leaves a
  representable number alone (so it is idempotent), \<open>0\<close>, \<open>1\<close>, \<open>100\<close> and the largest
  finite float are representable, and a positive number is never rounded to more than
  twice itself.
\<close>

definition rounding_ok :: "float_ops \<Rightarrow> bool" where
  "rounding_ok F \<longleftrightarrow>
     (\<forall>x y. x \<le> y \<longrightarrow> rnd F x \<le> rnd F y) \<and>
     (\<forall>x. rnd F (rnd F x) = rnd F x) \<and>
     rnd F 0 = 0 \<and> rnd F 1 = 1 \<and> rnd F 100 = 100 \<and>
     rnd F (max_float F) = max_float F \<and> 100 \<le> max_float F \<and>
     (\<forall>x. 0 < x \<longrightarrow> rnd F x \<le> 2 * x)"

text \<open>Of the logarithm only its sign from \<open>1\<close> upwards is used.\<close>

definition log4_sign_ok :: "float_ops \<Rightarrow> bool" where
  "log4_sign_ok F \<longleftrightarrow> (\<forall>x. 1 \<le> x \<longrightarrow> 0 \<le> log4 F x)"

text \<open>
  A ceiling is a number when it is an integer, or a float other than NaN (a finite float
  is representable and within the range).
\<close>

fun is_number :: "float_ops \<Rightarrow> pynum \<Rightarrow> bool" where
  "is_number F (PyFloat (Finite m)) = (rnd F m = m \<and> \<bar>m\<bar> \<le> max_float F)"
| "is_number F (PyFloat PosInf) = True"
| "is_number F (PyFloat NegInf) = True"
| "is_number F (PyFloat NaN) = False"
| "is_number F (PyInt n) = True"

text \<open>
  The exact value of a ceiling. An integer ceiling is converted exactly when \<open>float\<close>
  either returns its value unrounded or refuses it.
\<close>

fun ceiling_value :: "pynum \<Rightarrow> pyfloat" where
  "ceiling_value (PyInt n) = Finite (of_int n)"
| "ceiling_value (PyFloat x) = x"

fun converted_exactly :: "float_ops \<Rightarrow> pynum \<Rightarrow> bool" where
  "converted_exactly F (PyInt n) =
     (rnd F (of_int n) = of_int n \<or> max_float F < \<bar>rnd F (of_int n)\<bar>)"
| "converted_exactly F (PyFloat x) = True"

text \<open>
  What holds of \<open>_cumulative_error_sofar\<close> along the calls on a checker: it is a finite
  float, not negative, and once it has left 0 the ceiling is finite and above it.
\<close>

definition budget_inv :: "float_ops \<Rightarrow> checker \<Rightarrow> bool" where
  "budget_inv F c \<longleftrightarrow>
     (\<exists>x. cumulative_error_sofar c = Finite x \<and> rnd F x = x \<and> 0 \<le> x \<and>
          (x = 0 \<or> (\<exists>m. as_float F (max_cumulative_error c) = Inr (Finite m) \<and> x \<le> m)))"

subsection \<open>Named inputs\<close>

text \<open>Exact arithmetic within the range of binary64 is one instance.\<close>

definition exact_floats :: float_ops where
  "exact_floats = \<lparr>rnd = (\<lambda>x. x), max_float = 2 ^ 1024 - 2 ^ 971, log4 = log 4\<rparr>"

text \<open>
  An instance that agrees with binary64 and with CPython's \<open>math.log\<close> at the arguments
  that two calls studied below visit, and is exact elsewhere:
  \<open>6.249999999999999 / 100.0\<close> is \<open>0.06249999999999999\<close>, that is
  \<open>(25/4 - 2^-50) / 100\<close> rounds to \<open>1/16 - 2^-57\<close>; \<open>math.log(0.06249999999999999, 4)\<close> is
  \<open>-2.0\<close>; and \<open>math.log(4.0 ** -29, 4)\<close> is \<open>-29.000000000000004\<close>, that is
  \<open>-(29 + 2^-48)\<close>.
\<close>

definition binary64_samples :: float_ops where
  "binary64_samples =
     \<lparr>rnd = (\<lambda>x. if x = (25 / 4 - 1 / 2 ^ 50) / 100 then 1 / 16 - 1 / 2 ^ 57 else x),
      max_float = 2 ^ 1024 - 2 ^ 971,
      log4 = (\<lambda>x. if x = 1 / 4 ^ 29 then - (29 + 1 / 2 ^ 48)
                   else if x = 1 / 16 - 1 / 2 ^ 57 then - 2
                   else log 4 x)\<rparr>"

text \<open>The checker that \<open>MillerRabinPrimeChecker()\<close> builds, and a generator that always draws 1.\<close>

definition default_checker :: checker where
  "default_checker = init (PyFloat (Finite (1 / 10 ^ 12)))"

definition draw_ones :: "nat \<Rightarrow> int" where
  "draw_ones i = 1"

text \<open>A generator that draws 2, 3, 5, 7 in turn, and one that always draws 11.\<close>

definition draw_2357 :: "nat \<Rightarrow> int" where
  "draw_2357 i = [2, 3, 5, 7] ! (i mod 4)"

definition draw_elevens :: "nat \<Rightarrow> int" where
  "draw_elevens i = 11"

subsection \<open>Ground truth\<close>

text \<open>Primality by trial division: \<open>n > 1\<close> and no \<open>d\<close> from 2 to \<open>n - 1\<close> divides \<open>n\<close>.\<close>

definition trial_division_prime :: "int \<Rightarrow> bool" where
  "trial_division_prime n \<longleftrightarrow> 1 < n \<and> (\<forall>d \<in> {2..<n}. n mod d \<noteq> 0)"

section \<open>Termination of the halving loop\<close>

lemma halving_loop_total:
  "d \<noteq> 0 \<Longrightarrow> \<exists>d' j. halving_loop d r = Some (d', r + j) \<and> odd d' \<and> d = d' * 2 ^ j"
proof (induction "nat \<bar>d\<bar>" arbitrary: d r rule: less_induct)
  case less
  show ?case
  proof (cases "d mod 2 = 0")
    case False
    then have "halving_loop d r = Some (d, r + 0)"
      by (subst halving_loop.simps) simp
    moreover have "odd d" using False by presburger
    ultimately show ?thesis by (intro exI[of _ d] exI[of _ 0]) simp
  next
    case True
    then have ev: "even d" by presburger
    have nz: "d div 2 \<noteq> 0" using ev less.prems by presburger
    have "nat \<bar>d div 2\<bar> < nat \<bar>d\<bar>"
      using less.prems ev by (simp add: abs_if nat_less_iff) presburger
    from less.hyps[OF this nz, of "r + 1"]
    obtain d' j where h: "halving_loop (d div 2) (r + 1) = Some (d', r + 1 + j)"
      "odd d'" "d div 2 = d' * 2 ^ j" by blast
    have "halving_loop d r = Some (d', r + Suc j)"
      using True h(1) by (subst halving_loop.simps) simp
    moreover have "d = d' * 2 ^ Suc j" using h(3) ev by auto
    ultimately show ?thesis using h(2) by blast
  qed
qed

section \<open>The shape of a call\<close>

text \<open>
  A call with an odd \<open>n \<ge> 3\<close> leaves the halving loop, and then either
  \<open>_GetBasesGenAndReporter\<close> raises or the call returns after one call of the reporter.
\<close>

lemma call_reporter_eq:
  "call_reporter F reporter x (c, calls) =
     (fst (Report F reporter x c), snd (Report F reporter x c), calls @ [x])"
  by (simp add: call_reporter_def split: prod.splits)

lemma IsPrime_odd_cases:
  assumes "n \<noteq> 2" "\<not> n \<le> 1" "n mod 2 \<noteq> 0"
  obtains (raises) e where
      "GetBasesGenAndReporter F c draw n = Inl e"
      "IsPrime F c draw n = Some (Inl e)"
  | (returns) d r bases_gen reporter where
      "halving_loop (n - 1) 0 = Some (d, r)" "odd d" "n - 1 = d * 2 ^ r"
      "GetBasesGenAndReporter F c draw n = Inr (bases_gen, reporter)"
      "IsPrime F c draw n =
         Some (Inr \<lparr>verdict = bases_loop bases_gen n d r,
                    checker_after = snd (Report F reporter (bases_loop bases_gen n d r) c),
                    reports = [bases_loop bases_gen n d r],
                    reporter_after = Some (fst (Report F reporter (bases_loop bases_gen n d r) c))\<rparr>)"
proof -
  have "n - 1 \<noteq> 0" using assms by simp
  from halving_loop_total[OF this, of 0]
  obtain d r where h: "halving_loop (n - 1) 0 = Some (d, r)" "odd d" "n - 1 = d * 2 ^ r"
    by auto
  show thesis
  proof (cases "GetBasesGenAndReporter F c draw n")
    case (Inl e)
    then have "IsPrime F c draw n = Some (Inl e)"
      using assms h(1) by (simp add: IsPrime_def)
    with Inl show thesis by (rule raises)
  next
    case (Inr p)
    obtain bases_gen reporter where p: "p = (bases_gen, reporter)" by (cases p)
    have "IsPrime F c draw n =
         Some (Inr \<lparr>verdict = bases_loop bases_gen n d r,
                    checker_after = snd (Report F reporter (bases_loop bases_gen n d r) c),
                    reports = [bases_loop bases_gen n d r],
                    reporter_after = Some (fst (Report F reporter (bases_loop bases_gen n d r) c))\<rparr>)"
      using assms h(1) Inr p by (simp add: IsPrime_def Let_def call_reporter_eq)
    with h Inr p show thesis by (intro returns[of d r bases_gen reporter]) simp_all
  qed
qed

lemma IsPrime_returns: "\<exists>x. IsPrime F c draw n = Some x"
proof (cases "n = 2 \<or> n \<le> 1 \<or> n mod 2 = 0")
  case True
  then show ?thesis by (auto simp: IsPrime_def)
next
  case False
  then have "n \<noteq> 2" "\<not> n \<le> 1" "n mod 2 \<noteq> 0" by auto
  then show ?thesis by (cases rule: IsPrime_odd_cases[of n F c draw]) auto
qed

lemma Report_unchanged:
  "\<not> x \<or> reporter = NoopReporter \<Longrightarrow> snd (Report F reporter x c) = c"
  by (cases reporter) auto

lemma GetBases_deterministic:
  "n < 3215031751 \<Longrightarrow> GetBasesGenAndReporter F c draw n = Inr (bs, rep) \<Longrightarrow> rep = NoopReporter"
  by (auto simp: GetBasesGenAndReporter_def)

text \<open>A call of the randomized regime, unfolded.\<close>

lemma randomized_call:
  assumes "n mod 2 \<noteq> 0" "3215031751 \<le> n"
  shows "IsPrime F c draw n =
    (case acceptable_error_probability F c of
       Inl e \<Rightarrow> Some (Inl e)
     | Inr a \<Rightarrow>
        (case witness_count F a of
           Inl e \<Rightarrow> Some (Inl e)
         | Inr k \<Rightarrow>
            (case halving_loop (n - 1) 0 of None \<Rightarrow> None
             | Some (d, r) \<Rightarrow>
               (let result = bases_loop (map draw [0..<nat k]) n d r in
                Some (Inr \<lparr>verdict = result,
                   checker_after =
                     (if result then
                        c\<lparr>cumulative_error_sofar := fadd F (cumulative_error_sofar c) a,
                          error_opportunity_count := error_opportunity_count c + 1\<rparr>
                      else c),
                   reports = [result],
                   reporter_after = Some (Reporter a True)\<rparr>)))))"
proof -
  have "n \<noteq> 2" "\<not> n \<le> 1" "n mod 2 \<noteq> 0" using assms by auto
  then show ?thesis
  proof (cases rule: IsPrime_odd_cases[of n F c draw])
    case (raises e)
    then show ?thesis using assms
      by (auto simp: GetBasesGenAndReporter_def Let_def split: sum.splits)
  next
    case (returns d r bases_gen reporter)
    then show ?thesis using assms
      by (auto simp: GetBasesGenAndReporter_def Let_def split: sum.splits)
  qed
qed

section \<open>Floats\<close>

lemma fle_trans: "fle a b \<Longrightarrow> fle b c \<Longrightarrow> fle a c"
  by (cases a; cases b; cases c) simp_all

lemma fle_refl: "a \<noteq> NaN \<Longrightarrow> fle a a"
  by (cases a) simp_all

lemma fl_Finite_iff:
  "fl F z = Finite w \<longleftrightarrow> w = rnd F z \<and> rnd F z \<le> max_float F \<and> - max_float F \<le> rnd F z"
  by (auto simp: fl_def)

lemma fl_not_NaN: "fl F z \<noteq> NaN"
  by (simp add: fl_def)

lemma fl_nonneg:
  assumes "rounding_ok F" "0 \<le> z" "z \<le> max_float F"
  shows "fl F z = Finite (rnd F z)" "0 \<le> rnd F z" "rnd F z \<le> max_float F"
proof -
  have mono: "\<And>x y. x \<le> y \<Longrightarrow> rnd F x \<le> rnd F y"
    and zero: "rnd F 0 = 0" and top: "rnd F (max_float F) = max_float F"
    and big: "100 \<le> max_float F"
    using assms(1) by (simp_all add: rounding_ok_def)
  show 1: "0 \<le> rnd F z" using mono[OF assms(2)] zero by simp
  show 2: "rnd F z \<le> max_float F" using mono[OF assms(3)] top by simp
  show "fl F z = Finite (rnd F z)" using 1 2 big by (simp add: fl_def)
qed

lemma float_of_int_ge_100:
  assumes "rounding_ok F" "float_of_int F (max 100 k) = Inr d"
  shows "100 \<le> d" "d = rnd F (of_int (max 100 k))"
proof -
  have mono: "\<And>x y. x \<le> y \<Longrightarrow> rnd F x \<le> rnd F y" and h: "rnd F 100 = 100"
    using assms(1) by (simp_all add: rounding_ok_def)
  show d: "d = rnd F (of_int (max 100 k))"
    using assms(2) by (simp add: float_of_int_def split: if_splits)
  have "rnd F 100 \<le> rnd F (of_int (max 100 k))" by (intro mono) simp
  then show "100 \<le> d" using d h by simp
qed

lemma as_float_number:
  assumes "rounding_ok F" "is_number F M" "as_float F M = Inr (Finite m)"
  shows "rnd F m = m" "m \<le> max_float F"
proof -
  have idem: "\<And>x. rnd F (rnd F x) = rnd F x" using assms(1) by (simp add: rounding_ok_def)
  have "rnd F m = m \<and> m \<le> max_float F"
  proof (cases M)
    case (PyInt n)
    then have "m = rnd F (of_int n)" "\<not> max_float F < \<bar>rnd F (of_int n)\<bar>"
      using assms(3) by (auto simp: float_of_int_def split: if_splits)
    then show ?thesis using idem by auto
  next
    case (PyFloat x)
    then show ?thesis using assms(2,3) by auto
  qed
  then show "rnd F m = m" "m \<le> max_float F" by simp_all
qed

lemma witness_count_Inr:
  assumes "witness_count F a = Inr k"
  obtains x where "a = Finite x" "0 < x" "k = \<lceil>- log4 F x\<rceil>"
  using assms by (cases a) (auto simp: witness_count_def split: if_splits)

lemma witness_count_pos: "0 < x \<Longrightarrow> witness_count F (Finite x) = Inr \<lceil>- log4 F x\<rceil>"
  by (simp add: witness_count_def)

text \<open>What a finite allowance tells about the values it was computed from.\<close>

lemma allowance_Finite:
  assumes "acceptable_error_probability F c = Inr (Finite a)"
    and "cumulative_error_sofar c = Finite x"
  obtains m d where
    "as_float F (max_cumulative_error c) = Inr (Finite m)"
    "float_of_int F (max 100 (error_opportunity_count c)) = Inr d" "d \<noteq> 0"
    "fl F (m - x) = Finite (rnd F (m - x))"
    "a = rnd F (rnd F (m - x) / d)"
proof -
  obtain mf where mf: "as_float F (max_cumulative_error c) = Inr mf"
    using assms(1) by (auto simp: acceptable_error_probability_def split: sum.splits)
  obtain d where d: "float_of_int F (max 100 (error_opportunity_count c)) = Inr d"
    using assms(1) mf by (auto simp: acceptable_error_probability_def split: sum.splits)
  have q: "fdiv F (fsub F mf (Finite x)) d = Inr (Finite a)"
    using assms mf d by (simp add: acceptable_error_probability_def)
  then have d0: "d \<noteq> 0" by (auto simp: fdiv_def split: if_splits)
  obtain y where y: "fsub F mf (Finite x) = Finite y" "fl F (y / d) = Finite a"
    using q d0 by (cases "fsub F mf (Finite x)") (auto simp: fdiv_def split: if_splits)
  obtain m where m: "mf = Finite m" "fl F (m - x) = Finite y"
    using y(1) by (cases mf) auto
  have "y = rnd F (m - x)" using m(2) by (simp add: fl_Finite_iff)
  moreover have "a = rnd F (y / d)" using y(2) by (simp add: fl_Finite_iff)
  ultimately show thesis using mf d d0 m by (intro that[of m d]) simp_all
qed

lemma allowance_not_NaN:
  assumes "is_number F (max_cumulative_error c)" "cumulative_error_sofar c = Finite x"
    "acceptable_error_probability F c = Inr a"
  shows "a \<noteq> NaN"
proof -
  obtain mf where mf: "as_float F (max_cumulative_error c) = Inr mf"
    using assms(3) by (auto simp: acceptable_error_probability_def split: sum.splits)
  obtain d where d: "float_of_int F (max 100 (error_opportunity_count c)) = Inr d"
    using assms(3) mf by (auto simp: acceptable_error_probability_def split: sum.splits)
  have q: "fdiv F (fsub F mf (Finite x)) d = Inr a"
    using assms mf d by (simp add: acceptable_error_probability_def)
  have "mf \<noteq> NaN" using mf assms(1)
    by (cases "max_cumulative_error c") (auto split: sum.splits)
  then have "fsub F mf (Finite x) \<noteq> NaN" by (cases mf) (simp_all add: fl_not_NaN)
  then show ?thesis using q
    by (cases "fsub F mf (Finite x)") (auto simp: fdiv_def fl_not_NaN split: if_splits)
qed

text \<open>A positive allowance is at most the gap between the ceiling and the error so far.\<close>

lemma allowance_le_gap:
  assumes ok: "rounding_ok F"
    and a: "acceptable_error_probability F c = Inr (Finite a)" and pos: "0 < a"
    and x: "cumulative_error_sofar c = Finite x"
  obtains m d where
    "as_float F (max_cumulative_error c) = Inr (Finite m)"
    "float_of_int F (max 100 (error_opportunity_count c)) = Inr d" "100 \<le> d"
    "a = rnd F (rnd F (m - x) / d)" "0 < rnd F (m - x)" "rnd F (m - x) \<le> max_float F"
    "0 < m - x" "a \<le> m - x"
proof -
  have mono: "\<And>x y. x \<le> y \<Longrightarrow> rnd F x \<le> rnd F y"
    and zero: "rnd F 0 = 0"
    and twice: "\<And>x. 0 < x \<Longrightarrow> rnd F x \<le> 2 * x"
    using ok by (simp_all add: rounding_ok_def)
  from allowance_Finite[OF a x] obtain m d where
    m: "as_float F (max_cumulative_error c) = Inr (Finite m)"
    and d: "float_of_int F (max 100 (error_opportunity_count c)) = Inr d"
    and f: "fl F (m - x) = Finite (rnd F (m - x))"
    and e: "a = rnd F (rnd F (m - x) / d)" by blast
  define y where "y = rnd F (m - x)"
  define t where "t = m - x"
  define q where "q = y / d"
  have D: "100 \<le> d" using float_of_int_ge_100(1)[OF ok d] .
  have q: "0 < q"
  proof (rule ccontr)
    assume "\<not> 0 < q"
    then have "rnd F q \<le> rnd F 0" by (intro mono) simp
    then show False using pos e zero by (simp add: q_def y_def)
  qed
  then have y: "0 < y" using D by (simp add: q_def zero_less_divide_iff)
  have t: "0 < t"
  proof (rule ccontr)
    assume "\<not> 0 < t"
    then have "rnd F t \<le> rnd F 0" by (intro mono) simp
    then show False using y zero by (simp add: y_def t_def)
  qed
  have 1: "y \<le> 2 * t" using twice[OF t] by (simp add: y_def t_def)
  have 2: "q \<le> y / 100" unfolding q_def using D y by (intro divide_left_mono) simp_all
  have 3: "rnd F q \<le> 2 * q" using twice[OF q] .
  have "y / 100 \<le> 2 * t / 100" using 1 by (intro divide_right_mono) simp_all
  with 2 3 have "rnd F q \<le> t / 25" by linarith
  with t have "rnd F q \<le> t" by linarith
  then have le: "a \<le> m - x" using e by (simp add: q_def y_def t_def)
  have "y \<le> max_float F" using f by (simp add: fl_Finite_iff y_def)
  then show thesis using m d D e y t le
    by (intro that[of m d]) (simp_all add: y_def t_def)
qed

section \<open>The error budget\<close>

text \<open>
  A call either leaves the checker as it was, or it had a finite positive allowance and
  spent it.
\<close>

lemma call_frame:
  assumes "IsPrime F c draw n = Some (Inr res)"
  shows "(n < 3215031751 \<or> \<not> verdict res \<longrightarrow> checker_after res = c) \<and>
         (error_opportunity_count (checker_after res) \<noteq> error_opportunity_count c
            \<longrightarrow> 3215031751 \<le> n \<and> verdict res)"
proof -
  have 1: "checker_after res = c" if "n < 3215031751 \<or> \<not> verdict res"
  proof (cases "n = 2 \<or> n \<le> 1 \<or> n mod 2 = 0")
    case True
    then show ?thesis using assms by (auto simp: IsPrime_def split: if_splits)
  next
    case False
    then have "n \<noteq> 2" "\<not> n \<le> 1" "n mod 2 \<noteq> 0" by auto
    then show ?thesis
    proof (cases rule: IsPrime_odd_cases[of n F c draw])
      case (raises e)
      then show ?thesis using assms by simp
    next
      case (returns d r bases_gen reporter)
      let ?b = "bases_loop bases_gen n d r"
      have res: "res = \<lparr>verdict = ?b, checker_after = snd (Report F reporter ?b c),
                    reports = [?b], reporter_after = Some (fst (Report F reporter ?b c))\<rparr>"
        using assms returns(5) by simp
      have v: "verdict res = ?b" and a: "checker_after res = snd (Report F reporter ?b c)"
        by (simp_all add: res)
      have "\<not> ?b \<or> reporter = NoopReporter"
      proof (cases "n < 3215031751")
        case True
        then show ?thesis using GetBases_deterministic[OF True returns(4)] by simp
      next
        case False
        then show ?thesis using that v by simp
      qed
      then show ?thesis unfolding a by (rule Report_unchanged)
    qed
  qed
  then show ?thesis by (cases "n < 3215031751"; cases "verdict res"; simp)
qed

lemma after_call_cases:
  obtains (same) "after_call F c call = c"
  | (spent) a where "acceptable_error_probability F c = Inr (Finite a)" "0 < a"
      "after_call F c call =
         c\<lparr>cumulative_error_sofar := fadd F (cumulative_error_sofar c) (Finite a),
           error_opportunity_count := error_opportunity_count c + 1\<rparr>"
proof -
  obtain draw n where call: "call = (draw, n)" by (cases call)
  show thesis
  proof (cases "n mod 2 \<noteq> 0 \<and> 3215031751 \<le> n")
    case False
    have "after_call F c call = c"
    proof (cases "IsPrime F c draw n")
      case None
      then show ?thesis by (simp add: after_call_def call)
    next
      case (Some x)
      show ?thesis
      proof (cases x)
        case (Inl e)
        then show ?thesis using Some by (simp add: after_call_def call)
      next
        case (Inr res)
        have "n < 3215031751 \<or> \<not> verdict res"
        proof (cases "n mod 2 = 0")
          case True
          then show ?thesis using Some Inr by (auto simp: IsPrime_def split: if_splits)
        next
          case odd: False
          then show ?thesis using False by simp
        qed
        then have "checker_after res = c"
          using call_frame[of F c draw n res] Some Inr by simp
        then show ?thesis using Some Inr by (simp add: after_call_def call)
      qed
    qed
    then show thesis by (rule same)
  next
    case True
    then have odd: "n mod 2 \<noteq> 0" and big: "3215031751 \<le> n" by auto
    have "n - 1 \<noteq> 0" using big by simp
    from halving_loop_total[OF this, of 0]
    obtain d r where h: "halving_loop (n - 1) 0 = Some (d, r)" by auto
    show thesis
    proof (cases "acceptable_error_probability F c")
      case (Inl e)
      then have "after_call F c call = c"
        by (simp add: after_call_def call randomized_call[OF odd big])
      then show thesis by (rule same)
    next
      case (Inr a)
      show thesis
      proof (cases "witness_count F a")
        case (Inl e)
        then have "after_call F c call = c"
          using Inr by (simp add: after_call_def call randomized_call[OF odd big])
        then show thesis by (rule same)
      next
        case k: (Inr k)
        from witness_count_Inr[OF k] obtain x where x: "a = Finite x" "0 < x" by blast
        let ?b = "bases_loop (map draw [0..<nat k]) n d r"
        have ac: "after_call F c call =
            (if ?b then c\<lparr>cumulative_error_sofar := fadd F (cumulative_error_sofar c) a,
                            error_opportunity_count := error_opportunity_count c + 1\<rparr> else c)"
          using Inr k h
          by (simp add: after_call_def call randomized_call[OF odd big] Let_def)
        show thesis
        proof (cases ?b)
          case True
          with ac x Inr show thesis by (intro spent[of x]) simp_all
        next
          case False
          with ac show thesis by (intro same) simp
        qed
      qed
    qed
  qed
qed

text \<open>One call: the ceiling stays, the invariant stays, nothing shrinks, the allowance does not grow.\<close>

lemma after_call_step:
  assumes ok: "rounding_ok F" and num: "is_number F (max_cumulative_error c)"
    and inv: "budget_inv F c"
  shows "max_cumulative_error (after_call F c call) = max_cumulative_error c"
    and "budget_inv F (after_call F c call)"
    and "fle (cumulative_error_sofar c) (cumulative_error_sofar (after_call F c call))"
    and "error_opportunity_count c \<le> error_opportunity_count (after_call F c call)"
    and "acceptable_error_probability F c = Inr a1 \<Longrightarrow>
         acceptable_error_probability F (after_call F c call) = Inr a2 \<Longrightarrow> fle a2 a1"
proof -
  have mono: "\<And>x y. x \<le> y \<Longrightarrow> rnd F x \<le> rnd F y"
    and idem: "\<And>x. rnd F (rnd F x) = rnd F x"
    and zero: "rnd F 0 = 0" and big: "100 \<le> max_float F"
    using ok by (simp_all add: rounding_ok_def)
  let ?c' = "after_call F c call"
  obtain x where x: "cumulative_error_sofar c = Finite x" "rnd F x = x" "0 \<le> x"
    using inv by (auto simp: budget_inv_def)
  have all: "max_cumulative_error ?c' = max_cumulative_error c \<and> budget_inv F ?c' \<and>
      fle (cumulative_error_sofar c) (cumulative_error_sofar ?c') \<and>
      error_opportunity_count c \<le> error_opportunity_count ?c' \<and>
      (\<forall>a1 a2. acceptable_error_probability F c = Inr a1 \<longrightarrow>
         acceptable_error_probability F ?c' = Inr a2 \<longrightarrow> fle a2 a1)"
  proof (cases rule: after_call_cases[where F = F and c = c and call = call])
    case same
    have "fle a1 a1" if "acceptable_error_probability F c = Inr a1" for a1
      using allowance_not_NaN[OF num x(1) that] by (rule fle_refl)
    then show ?thesis using same inv x by auto
  next
    case (spent a)
    from allowance_le_gap[OF ok spent(1,2) x(1)] obtain m d where
      m: "as_float F (max_cumulative_error c) = Inr (Finite m)"
      and d: "float_of_int F (max 100 (error_opportunity_count c)) = Inr d" "100 \<le> d"
      and a: "a = rnd F (rnd F (m - x) / d)"
      and y: "0 < rnd F (m - x)" "rnd F (m - x) \<le> max_float F"
      and gap: "0 < m - x" "a \<le> m - x" by blast
    note mv = as_float_number[OF ok num m]
    define x' where "x' = rnd F (x + a)"
    have up: "x \<le> x'"
    proof -
      have "rnd F x \<le> rnd F (x + a)" using spent(2) by (intro mono) simp
      then show ?thesis using x(2) by (simp add: x'_def)
    qed
    have below: "x' \<le> m"
    proof -
      have "rnd F (x + a) \<le> rnd F m" using gap(2) by (intro mono) simp
      then show ?thesis using mv(1) by (simp add: x'_def)
    qed
    have sum: "fadd F (Finite x) (Finite a) = Finite x'"
      using up below x(3) mv(2) big by (simp add: fl_def x'_def)
    have c': "?c' = c\<lparr>cumulative_error_sofar := Finite x',
                       error_opportunity_count := error_opportunity_count c + 1\<rparr>"
      using spent(3) x(1) sum by simp
    have inv': "budget_inv F ?c'"
      unfolding budget_inv_def c' using m up below x(3) idem by (auto simp: x'_def)
    have allow: "fle a2 (Finite a)" if a2: "acceptable_error_probability F ?c' = Inr a2" for a2
    proof -
      have gap': "0 \<le> m - x'" "m - x' \<le> m - x" using up below by simp_all
      have "m - x' \<le> max_float F" using gap'(1) up x(3) mv(2) by linarith
      note f = fl_nonneg[OF ok gap'(1) this]
      define y' where "y' = rnd F (m - x')"
      have y': "0 \<le> y'" "y' \<le> rnd F (m - x)"
        using f(2) mono[OF gap'(2)] by (simp_all add: y'_def)
      obtain d' where d': "float_of_int F (max 100 (error_opportunity_count c + 1)) = Inr d'"
        using a2 m unfolding c'
        by (auto simp: acceptable_error_probability_def split: sum.splits)
      have dd: "d \<le> d'"
      proof -
        have "real_of_int (max 100 (error_opportunity_count c))
                \<le> real_of_int (max 100 (error_opportunity_count c + 1))" by simp
        then show ?thesis
          using float_of_int_ge_100(2)[OF ok d(1)] float_of_int_ge_100(2)[OF ok d'] mono
          by simp
      qed
      have q: "0 \<le> y' / d'" "y' / d' \<le> rnd F (m - x) / d"
      proof -
        show "0 \<le> y' / d'" using y'(1) dd d(2) by simp
        show "y' / d' \<le> rnd F (m - x) / d" using y' dd d(2) by (intro frac_le) simp_all
      qed
      have "rnd F (y' / d') \<le> a" using mono[OF q(2)] a by simp
      moreover have "0 \<le> rnd F (y' / d')" using mono[OF q(1)] zero by simp
      moreover have "a \<le> max_float F"
        using gap(2) gap'(1) up x(3) mv(2) by linarith
      ultimately have "fl F (y' / d') = Finite (rnd F (y' / d'))" using big
        by (simp add: fl_def)
      moreover have "a2 = fl F (y' / d')"
        using a2 m d' f(1) dd d(2) unfolding c'
        by (simp add: acceptable_error_probability_def fdiv_def y'_def)
      ultimately show ?thesis using \<open>rnd F (y' / d') \<le> a\<close> by simp
    qed
    show ?thesis using c' inv' up x(1) allow spent(1) by auto
  qed
  show "max_cumulative_error ?c' = max_cumulative_error c" "budget_inv F ?c'"
    "fle (cumulative_error_sofar c) (cumulative_error_sofar ?c')"
    "error_opportunity_count c \<le> error_opportunity_count ?c'"
    "acceptable_error_probability F c = Inr a1 \<Longrightarrow>
         acceptable_error_probability F ?c' = Inr a2 \<Longrightarrow> fle a2 a1"
    using all by blast+
qed

lemma after_calls_Nil [simp]: "after_calls F c [] = c"
  by (simp add: after_calls_def)

lemma after_calls_Cons [simp]:
  "after_calls F c (call # calls) = after_calls F (after_call F c call) calls"
  by (simp add: after_calls_def)

lemma after_calls_append [simp]:
  "after_calls F c (calls @ later) = after_calls F (after_calls F c calls) later"
  by (simp add: after_calls_def)

text \<open>A checker whose allowance cannot be computed stays as it is.\<close>

lemma raising_is_stuck:
  "acceptable_error_probability F c = Inl e \<Longrightarrow> after_calls F c calls = c"
proof (induction calls)
  case Nil
  then show ?case by simp
next
  case (Cons call calls)
  have "after_call F c call = c"
    by (cases rule: after_call_cases[where F = F and c = c and call = call]) (use Cons.prems in simp_all)
  then show ?case using Cons by simp
qed

lemma after_calls_steps:
  assumes ok: "rounding_ok F"
  shows "is_number F (max_cumulative_error c) \<Longrightarrow> budget_inv F c \<Longrightarrow>
    max_cumulative_error (after_calls F c calls) = max_cumulative_error c \<and>
    budget_inv F (after_calls F c calls) \<and>
    fle (cumulative_error_sofar c) (cumulative_error_sofar (after_calls F c calls)) \<and>
    error_opportunity_count c \<le> error_opportunity_count (after_calls F c calls) \<and>
    (\<forall>a2. acceptable_error_probability F (after_calls F c calls) = Inr a2 \<longrightarrow>
       (\<exists>a1. acceptable_error_probability F c = Inr a1 \<and> fle a2 a1))"
proof (induction calls arbitrary: c)
  case Nil
  obtain x where x: "cumulative_error_sofar c = Finite x"
    using Nil.prems(2) by (auto simp: budget_inv_def)
  have "fle a a" if "acceptable_error_probability F c = Inr a" for a
    using allowance_not_NaN[OF Nil.prems(1) x that] by (rule fle_refl)
  then show ?case using Nil.prems x by simp
next
  case (Cons call calls)
  let ?c1 = "after_call F c call"
  let ?c2 = "after_calls F ?c1 calls"
  note s = after_call_step[OF ok Cons.prems, where call = call]
  have num1: "is_number F (max_cumulative_error ?c1)" using s(1) Cons.prems(1) by simp
  note ih = Cons.IH[OF num1 s(2)]
  have sofar: "fle (cumulative_error_sofar c) (cumulative_error_sofar ?c2)"
    using s(3) ih by (blast intro: fle_trans)
  have allow: "\<exists>a1. acceptable_error_probability F c = Inr a1 \<and> fle a3 a1"
    if a3: "acceptable_error_probability F ?c2 = Inr a3" for a3
  proof -
    obtain a2 where a2: "acceptable_error_probability F ?c1 = Inr a2" "fle a3 a2"
      using ih a3 by blast
    show ?thesis
    proof (cases "acceptable_error_probability F c")
      case (Inl e)
      then have "?c1 = c" using raising_is_stuck[of F c e "[call]"] by simp
      then show ?thesis using Inl a2 by simp
    next
      case (Inr a1)
      then have "fle a2 a1" using s(5) a2(1) by blast
      then show ?thesis using Inr a2(2) by (blast intro: fle_trans)
    qed
  qed
  show ?case using s(1,4) ih sofar allow by auto
qed

lemma budget_inv_init: "rnd F 0 = 0 \<Longrightarrow> budget_inv F (init M)"
  by (simp add: budget_inv_def init_def)

lemma as_float_exact:
  assumes "converted_exactly F M" "as_float F M = Inr (Finite m)"
  shows "ceiling_value M = Finite m"
  using assms by (cases M) (auto simp: float_of_int_def split: if_splits)



section \<open>Exact arithmetic and the fresh checker\<close>

lemma exact_floats_simps [simp]: "rnd exact_floats x = x" "log4 exact_floats = log 4"
  by (simp_all add: exact_floats_def)

lemma max_float_exact: "100 \<le> max_float exact_floats"
  by (simp add: exact_floats_def)

lemma fl_exact: "\<bar>x\<bar> \<le> 100 \<Longrightarrow> fl exact_floats x = Finite x"
  using max_float_exact by (auto simp: fl_def)

lemma float_of_int_exact: "\<bar>n\<bar> \<le> 100 \<Longrightarrow> float_of_int exact_floats n = Inr (of_int n)"
  using max_float_exact by (simp add: float_of_int_def)

lemma init_simps [simp]:
  "max_cumulative_error (init M) = M"
  "cumulative_error_sofar (init M) = Finite 0"
  "error_opportunity_count (init M) = 0"
  by (simp_all add: init_def)

lemma rounding_ok_exact: "rounding_ok exact_floats"
  using max_float_exact by (simp add: rounding_ok_def)

lemma log4_sign_ok_exact: "log4_sign_ok exact_floats"
  by (simp add: log4_sign_ok_def)

text \<open>The allowance of a fresh checker with a small float ceiling.\<close>

lemma allowance_fresh_exact:
  assumes "0 \<le> m" "m \<le> 100"
  shows "acceptable_error_probability exact_floats (init (PyFloat (Finite m))) =
           Inr (Finite (m / 100))"
proof -
  have "float_of_int exact_floats (max 100 0) = Inr 100"
    using float_of_int_exact[of 100] by simp
  moreover have "fl exact_floats (m - 0) = Finite m" using assms fl_exact[of m] by simp
  moreover have "fl exact_floats (m / 100) = Finite (m / 100)"
    using assms fl_exact[of "m / 100"] by simp
  ultimately show ?thesis by (simp add: acceptable_error_probability_def fdiv_def)
qed

section \<open>Evaluation at concrete inputs\<close>

lemma halving_8: "halving_loop 8 0 = Some (1, 3)"
  by (simp add: halving_loop.simps)

lemma IsPrime_9: "IsPrime F c draw 9 =
   Some (Inr \<lparr>verdict = False, checker_after = c, reports = [False],
              reporter_after = Some NoopReporter\<rparr>)"
  by (simp add: IsPrime_def halving_8 GetBasesGenAndReporter_def IsDefinitelyComposite_def pow_def
         numeral_3_eq_3 call_reporter_eq)

lemma halving_2: "halving_loop 2 0 = Some (1, 1)"
  by (simp add: halving_loop.simps)

lemma IsPrime_3: "IsPrime F c draw 3 =
   Some (Inr \<lparr>verdict = True, checker_after = c, reports = [True],
              reporter_after = Some NoopReporter\<rparr>)"
  by (simp add: IsPrime_def halving_2 GetBasesGenAndReporter_def IsDefinitelyComposite_def pow_def
      call_reporter_eq)

lemma pow_One: "pow b 1 n = b mod n"
  by (simp add: pow_def)

lemma pow_Bit0: "pow b (numeral (Num.Bit0 k)) n = pow ((b * b) mod n) (numeral k) n"
proof -
  have "b ^ nat (numeral (Num.Bit0 k)) = (b * b) ^ numeral k"
    by (simp add: power_numeral_even Let_def power_mult_distrib)
  then show ?thesis by (simp add: pow_def power_mod)
qed

lemma pow_Bit1:
  "pow b (numeral (Num.Bit1 k)) n = (b * pow ((b * b) mod n) (numeral k) n) mod n"
proof -
  have "b ^ nat (numeral (Num.Bit1 k)) = b * (b * b) ^ numeral k"
    by (simp add: power_numeral_odd Let_def power_mult_distrib mult.assoc)
  then show ?thesis by (simp add: pow_def power_mod mod_mult_right_eq)
qed

lemmas pow_numeral = pow_One pow_Bit0 pow_Bit1

lemma halving_big: "halving_loop 3215031750 0 = Some (1607515875, 1)"
  by (simp add: halving_loop.simps)

lemma liar2: "IsDefinitelyComposite 2 3215031751 1607515875 1 = False"
  by (simp add: IsDefinitelyComposite_def pow_numeral)

lemma liar3: "IsDefinitelyComposite 3 3215031751 1607515875 1 = False"
  by (simp add: IsDefinitelyComposite_def pow_numeral)
lemma liar5: "IsDefinitelyComposite 5 3215031751 1607515875 1 = False"
  by (simp add: IsDefinitelyComposite_def pow_numeral)
lemma liar7: "IsDefinitelyComposite 7 3215031751 1607515875 1 = False"
  by (simp add: IsDefinitelyComposite_def pow_numeral)
lemma wit11: "IsDefinitelyComposite 11 3215031751 1607515875 1 = True"
  by (simp add: IsDefinitelyComposite_def pow_numeral)

lemma k_default: "\<lceil>- log 4 (1 / 10 ^ 14)\<rceil> = (24 :: int)"
proof -
  have "- log 4 (1 / 10 ^ 14 :: real) = log 4 (10 ^ 14)"
    by (simp add: log_divide)
  moreover have "real_of_int 23 < log 4 (10 ^ 14)"
    by (subst less_log_iff) (simp_all add: powr_numeral)
  moreover have "log 4 (10 ^ 14) \<le> real_of_int 24"
    by (subst log_le_iff) (simp_all add: powr_numeral)
  ultimately show ?thesis by (simp add: ceiling_eq_iff)
qed

lemma bases_loop_iff:
  "bases_loop bases n d r \<longleftrightarrow> (\<forall>base \<in> set bases. \<not> IsDefinitelyComposite base n d r)"
  by (induction bases) auto

lemma base_1_passes: "1 < n \<Longrightarrow> \<not> IsDefinitelyComposite 1 n d r"
  by (simp add: IsDefinitelyComposite_def pow_def)

lemma bases_loop_map:
  "bases_loop (map draw [0..<k]) n d r \<longleftrightarrow>
     (\<forall>i < k. \<not> IsDefinitelyComposite (draw i) n d r)"
  by (auto simp: bases_loop_iff)

lemma draw_2357_cases:
  "draw_2357 i = 2 \<or> draw_2357 i = 3 \<or> draw_2357 i = 5 \<or> draw_2357 i = 7"
proof -
  have "i mod 4 = 0 \<or> i mod 4 = 1 \<or> i mod 4 = 2 \<or> i mod 4 = 3" by presburger
  then show ?thesis by (auto simp: draw_2357_def numeral_2_eq_2 numeral_3_eq_3)
qed

lemma draw_2357_passes:
  "\<not> IsDefinitelyComposite (draw_2357 i) 3215031751 1607515875 1"
  using draw_2357_cases[of i] liar2 liar3 liar5 liar7 by auto

lemma not_prime_3215031751: "\<not> trial_division_prime 3215031751"
proof -
  have "(151 :: int) \<in> {2..<3215031751}" "(3215031751 :: int) mod 151 = 0" by simp_all
  then show ?thesis by (auto simp: trial_division_prime_def intro!: bexI[of _ 151])
qed

lemma allowance_default:
  "acceptable_error_probability exact_floats default_checker = Inr (Finite (1 / 10 ^ 14))"
proof -
  have "acceptable_error_probability exact_floats (init (PyFloat (Finite (1 / 10 ^ 12)))) =
           Inr (Finite ((1 / 10 ^ 12) / 100))"
    by (rule allowance_fresh_exact) simp_all
  then show ?thesis by (simp add: default_checker_def)
qed

lemma witness_count_default: "witness_count exact_floats (Finite (1 / 10 ^ 14)) = Inr 24"
proof -
  have "witness_count exact_floats (Finite (1 / 10 ^ 14)) = Inr \<lceil>- log4 exact_floats (1 / 10 ^ 14)\<rceil>"
    by (rule witness_count_pos) simp
  then show ?thesis using k_default by simp
qed

lemma default_fields:
  "cumulative_error_sofar default_checker = Finite 0"
  "error_opportunity_count default_checker = 0"
  by (simp_all add: default_checker_def)

lemma halving_big': "halving_loop (3215031751 - 1) 0 = Some (1607515875, 1)"
  using halving_big by simp

lemma spend_default: "fadd exact_floats (Finite 0) (Finite (1 / 10 ^ 14)) = Finite (1 / 10 ^ 14)"
proof -
  have "fl exact_floats (1 / 10 ^ 14) = Finite (1 / 10 ^ 14)" by (rule fl_exact) simp
  then show ?thesis by simp
qed

lemma IsPrime_default:
  assumes "bases_loop (map draw [0..<24]) 3215031751 1607515875 1 = b"
  shows "IsPrime exact_floats default_checker draw 3215031751 =
     Some (Inr \<lparr>verdict = b,
             checker_after =
               (if b then default_checker\<lparr>cumulative_error_sofar := Finite (1 / 10 ^ 14),
                                          error_opportunity_count := 1\<rparr>
                else default_checker),
             reports = [b],
             reporter_after = Some (Reporter (Finite (1 / 10 ^ 14)) True)\<rparr>)"
  unfolding randomized_call [of 3215031751, simplified] allowance_default sum.case
    witness_count_default halving_big' default_fields
  using assms spend_default by (simp del: upt.simps)

lemma IsPrime_default_ones:
  "IsPrime exact_floats default_checker draw_ones 3215031751 =
     Some (Inr \<lparr>verdict = True,
             checker_after =
               default_checker\<lparr>cumulative_error_sofar := Finite (1 / 10 ^ 14),
                               error_opportunity_count := 1\<rparr>,
             reports = [True],
             reporter_after = Some (Reporter (Finite (1 / 10 ^ 14)) True)\<rparr>)"
proof -
  have "bases_loop (map draw_ones [0..<24]) 3215031751 1607515875 1 = True"
    by (simp add: bases_loop_iff draw_ones_def base_1_passes)
  from IsPrime_default[OF this] show ?thesis by simp
qed

lemma after_call_default_ones:
  "after_call exact_floats default_checker (draw_ones, 3215031751) =
     default_checker\<lparr>cumulative_error_sofar := Finite (1 / 10 ^ 14),
                     error_opportunity_count := 1\<rparr>"
  by (simp add: after_call_def IsPrime_default_ones)

lemma IsPrime_default_2357:
  "IsPrime exact_floats default_checker draw_2357 3215031751 =
     Some (Inr \<lparr>verdict = True,
             checker_after =
               default_checker\<lparr>cumulative_error_sofar := Finite (1 / 10 ^ 14),
                               error_opportunity_count := 1\<rparr>,
             reports = [True],
             reporter_after = Some (Reporter (Finite (1 / 10 ^ 14)) True)\<rparr>)"
proof -
  have "bases_loop (map draw_2357 [0..<24]) 3215031751 1607515875 1 = True"
    unfolding bases_loop_map using draw_2357_passes by blast
  from IsPrime_default[OF this] show ?thesis by simp
qed

lemma IsPrime_default_elevens:
  "IsPrime exact_floats default_checker draw_elevens 3215031751 =
     Some (Inr \<lparr>verdict = False, checker_after = default_checker, reports = [False],
             reporter_after = Some (Reporter (Finite (1 / 10 ^ 14)) True)\<rparr>)"
proof -
  have "IsDefinitelyComposite (draw_elevens 0) 3215031751 1607515875 1"
    using wit11 by (simp only: draw_elevens_def)
  moreover have "(0 :: nat) < 24" by simp
  ultimately have "\<not> bases_loop (map draw_elevens [0..<24]) 3215031751 1607515875 1"
    unfolding bases_loop_map by blast
  then have "bases_loop (map draw_elevens [0..<24]) 3215031751 1607515875 1 = False" by simp
  from IsPrime_default[OF this] show ?thesis by simp
qed

section \<open>Frame\<close>

text \<open>
  C6. A call in the deterministic regime (\<open>n < 3215031751\<close>) and a call whose verdict is
  "composite" leave the checker, all three fields, as it was; so
  \<open>error_opportunity_count\<close> changes only in a call of the randomized regime that
  returned \<open>True\<close>.
\<close>

theorem C6_frame:
  assumes "IsPrime F c draw n = Some (Inr res)"
  shows "(n < 3215031751 \<or> \<not> verdict res \<longrightarrow> checker_after res = c) \<and>
         (error_opportunity_count (checker_after res) \<noteq> error_opportunity_count c
            \<longrightarrow> 3215031751 \<le> n \<and> verdict res)"
  using assms by (rule call_frame)

theorem C6_frame_witness:
  "IsPrime exact_floats default_checker draw_ones 9 =
     Some (Inr \<lparr>verdict = False, checker_after = default_checker, reports = [False],
                reporter_after = Some NoopReporter\<rparr>) \<and>
   (9 :: int) < 3215031751 \<and>
   checker_after \<lparr>verdict = False, checker_after = default_checker, reports = [False],
                reporter_after = Some NoopReporter\<rparr> = default_checker"
  using C6_frame [OF IsPrime_9 [of exact_floats default_checker draw_ones]] IsPrime_9 by simp

section \<open>Reporting\<close>

text \<open>The list that \<open>call_reporter\<close> keeps grows by one entry with every call.\<close>

lemma call_reporter_counts:
  "snd (snd (call_reporter F reporter x (c, calls))) = calls @ [x]"
  by (simp add: call_reporter_eq)

lemma call_reporter_twice:
  "snd (snd (call_reporter F r2 y (c2, snd (snd (call_reporter F r1 x (c1, calls)))))) =
     calls @ [x, y]"
  by (simp add: call_reporter_eq)

text \<open>
  C5, as the code has it. A call that returns with \<open>n = 2\<close>, \<open>n \<le> 1\<close> or an even \<open>n\<close> has
  returned before \<open>_GetBasesGenAndReporter\<close>: it makes no reporter and reports nothing.
  Every other call that returns has called its reporter exactly once, with the verdict it
  returns, whether the loop over the bases was left early or not: the list that the calls
  of the reporter build has that one entry. The reporter it leaves behind passes the
  assertion of \<open>__del__\<close>, and in the randomized regime it is a \<open>Reporter\<close> whose
  \<open>_reported\<close> is \<open>True\<close>.
\<close>

theorem C5_reports_once:
  assumes "IsPrime F c draw n = Some (Inr res)"
  shows "(n = 2 \<or> n \<le> 1 \<or> n mod 2 = 0 \<longrightarrow> reports res = [] \<and> reporter_after res = None) \<and>
         (n \<noteq> 2 \<and> 1 < n \<and> n mod 2 \<noteq> 0 \<longrightarrow>
            reports res = [verdict res] \<and>
            (\<exists>rep. reporter_after res = Some rep \<and> del_assertion rep) \<and>
            (3215031751 \<le> n \<longrightarrow> (\<exists>a. reporter_after res = Some (Reporter a True))))"
proof (cases "n = 2 \<or> n \<le> 1 \<or> n mod 2 = 0")
  case True
  then show ?thesis using assms by (auto simp: IsPrime_def split: if_splits)
next
  case False
  then have "n \<noteq> 2" "\<not> n \<le> 1" "n mod 2 \<noteq> 0" by auto
  then show ?thesis
  proof (cases rule: IsPrime_odd_cases[of n F c draw])
    case (raises e)
    then show ?thesis using assms by simp
  next
    case (returns d r bases_gen reporter)
    let ?b = "bases_loop bases_gen n d r"
    have res: "res = \<lparr>verdict = ?b, checker_after = snd (Report F reporter ?b c),
                  reports = [?b], reporter_after = Some (fst (Report F reporter ?b c))\<rparr>"
      using assms returns(5) by simp
    have 1: "del_assertion (fst (Report F reporter ?b c))" by (cases reporter) simp_all
    have 2: "\<exists>a. fst (Report F reporter ?b c) = Reporter a True" if "3215031751 \<le> n"
      using returns(4) that
      by (auto simp: GetBasesGenAndReporter_def split: if_splits sum.splits)
    show ?thesis using False 1 2 by (simp add: res)
  qed
qed

theorem C5_reports_once_witness:
  "IsPrime exact_floats default_checker draw_elevens 3215031751 =
     Some (Inr \<lparr>verdict = False, checker_after = default_checker, reports = [False],
             reporter_after = Some (Reporter (Finite (1 / 10 ^ 14)) True)\<rparr>) \<and>
   (3215031751 :: int) \<noteq> 2 \<and> (1 :: int) < 3215031751 \<and> (3215031751 :: int) mod 2 \<noteq> 0 \<and>
   reports \<lparr>verdict = False, checker_after = default_checker, reports = [False],
             reporter_after = Some (Reporter (Finite (1 / 10 ^ 14)) True)\<rparr> = [False] \<and>
   del_assertion (Reporter (Finite (1 / 10 ^ 14)) True)"
  using C5_reports_once [OF IsPrime_default_elevens] IsPrime_default_elevens by simp

text \<open>
  C5 as stated ("every invocation reports exactly once, never zero times") fails:
  \<open>IsPrime(4)\<close> returns \<open>False\<close> at the evenness test and reports nothing.
\<close>

theorem C5_even_input_counterexample:
  "IsPrime exact_floats default_checker draw_ones 4 =
     Some (Inr \<lparr>verdict = False, checker_after = default_checker, reports = [],
                reporter_after = None\<rparr>) \<and>
   length (reports \<lparr>verdict = False, checker_after = default_checker, reports = [],
                reporter_after = None\<rparr>) \<noteq> 1"
  by (simp add: IsPrime_def)

section \<open>An exhausted budget\<close>

text \<open>
  C8. In the randomized regime (odd \<open>n \<ge> 3215031751\<close>), when the allowance of the call is
  not positive (zero, negative or minus infinity), no witness count is computed:
  \<open>math.log\<close> raises \<open>ValueError\<close>, the call raises it in turn instead of returning a
  verdict, and the checker is left as it was.
\<close>

theorem C8_exhausted_budget_raises:
  assumes "acceptable_error_probability F c = Inr a" "fle a (Finite 0)"
    "n mod 2 \<noteq> 0" "3215031751 \<le> n"
  shows "witness_count F a = Inl ValueError \<and>
         IsPrime F c draw n = Some (Inl ValueError) \<and>
         after_call F c (draw, n) = c"
proof -
  have w: "witness_count F a = Inl ValueError"
    using assms(2) by (cases a) (simp_all add: witness_count_def)
  then have "IsPrime F c draw n = Some (Inl ValueError)"
    using assms(1) by (simp add: randomized_call[OF assms(3,4)])
  with w show ?thesis by (simp add: after_call_def)
qed

lemma allowance_init_0:
  "acceptable_error_probability exact_floats (init (PyFloat (Finite 0))) = Inr (Finite 0)"
  using allowance_fresh_exact[of 0] by simp

theorem C8_exhausted_budget_raises_witness:
  "acceptable_error_probability exact_floats (init (PyFloat (Finite 0))) = Inr (Finite 0) \<and>
   fle (Finite 0) (Finite 0) \<and> (3215031751 :: int) mod 2 \<noteq> 0 \<and>
   IsPrime exact_floats (init (PyFloat (Finite 0))) draw_ones 3215031751 = Some (Inl ValueError)"
proof -
  have 1: "fle (Finite 0) (Finite 0)" by simp
  have 2: "(3215031751 :: int) mod 2 \<noteq> 0" by simp
  have 3: "(3215031751 :: int) \<le> 3215031751" by simp
  show ?thesis
    using C8_exhausted_budget_raises [OF allowance_init_0 1 2 3, of draw_ones] allowance_init_0 2
    by simp
qed

section \<open>An allowance of at least 1\<close>

text \<open>A fresh checker with a finite float ceiling of at least 100 has such an allowance.\<close>

lemma fresh_allowance_ge_1:
  assumes ok: "rounding_ok F" and num: "is_number F (PyFloat (Finite m))" and m: "100 \<le> m"
  shows "\<exists>a. acceptable_error_probability F (init (PyFloat (Finite m))) = Inr (Finite a) \<and> 1 \<le> a"
proof -
  have mono: "\<And>x y. x \<le> y \<Longrightarrow> rnd F x \<le> rnd F y"
    and one: "rnd F 1 = 1" and hundred: "rnd F 100 = 100" and big: "100 \<le> max_float F"
    using ok by (simp_all add: rounding_ok_def)
  have mv: "rnd F m = m" "m \<le> max_float F" using num m by simp_all
  have d: "float_of_int F (max 100 0) = Inr 100"
    using hundred big by (simp add: float_of_int_def)
  have n: "fsub F (Finite m) (Finite 0) = Finite m"
    using fl_nonneg(1)[OF ok, of m] mv m by simp
  have q: "0 \<le> m / 100" "m / 100 \<le> max_float F" using m mv(2) by simp_all
  have "rnd F 1 \<le> rnd F (m / 100)" using m by (intro mono) simp
  then have "1 \<le> rnd F (m / 100)" using one by simp
  moreover have "acceptable_error_probability F (init (PyFloat (Finite m))) =
      Inr (Finite (rnd F (m / 100)))"
    using d n fl_nonneg(1)[OF ok q]
    by (simp add: acceptable_error_probability_def fdiv_def init_def)
  ultimately show ?thesis by blast
qed

text \<open>
  C10, as the code has it. When the allowance of the call is finite and at least 1, then
  for every odd \<open>n \<ge> 3215031751\<close> the witness count is at most 0, the generator yields no
  base, and \<open>IsPrime(n)\<close> returns \<open>True\<close> without a single witness test, while the
  allowance is added to \<open>_cumulative_error_sofar\<close> and \<open>_error_opportunity_count\<close> goes up
  by one.
\<close>

theorem C10_no_witness_tested:
  assumes "log4_sign_ok F" "acceptable_error_probability F c = Inr (Finite a)" "1 \<le> a"
    "n mod 2 \<noteq> 0" "3215031751 \<le> n"
  shows "(\<exists>k. witness_count F (Finite a) = Inr k \<and> k \<le> 0) \<and>
     GetBasesGenAndReporter F c draw n = Inr ([], Reporter (Finite a) False) \<and>
     IsPrime F c draw n =
       Some (Inr \<lparr>verdict = True,
               checker_after =
                 c\<lparr>cumulative_error_sofar := fadd F (cumulative_error_sofar c) (Finite a),
                   error_opportunity_count := error_opportunity_count c + 1\<rparr>,
               reports = [True],
               reporter_after = Some (Reporter (Finite a) True)\<rparr>)"
proof -
  have "0 \<le> log4 F a" using assms(1,3) by (simp add: log4_sign_ok_def)
  then have k: "\<lceil>- log4 F a\<rceil> \<le> 0" by (simp add: ceiling_le_iff)
  have w: "witness_count F (Finite a) = Inr \<lceil>- log4 F a\<rceil>"
    using assms(3) by (intro witness_count_pos) simp
  have nk: "nat \<lceil>- log4 F a\<rceil> = 0" using k by simp
  have g: "GetBasesGenAndReporter F c draw n = Inr ([], Reporter (Finite a) False)"
    using assms(2,5) w nk by (simp add: GetBasesGenAndReporter_def)
  have "n - 1 \<noteq> 0" using assms(5) by simp
  from halving_loop_total[OF this, of 0]
  obtain d r where h: "halving_loop (n - 1) 0 = Some (d, r)" by auto
  have "IsPrime F c draw n =
       Some (Inr \<lparr>verdict = True,
               checker_after =
                 c\<lparr>cumulative_error_sofar := fadd F (cumulative_error_sofar c) (Finite a),
                   error_opportunity_count := error_opportunity_count c + 1\<rparr>,
               reports = [True],
               reporter_after = Some (Reporter (Finite a) True)\<rparr>)"
    using assms(2) w nk h by (simp add: randomized_call[OF assms(4,5)])
  with w k g show ?thesis by simp
qed

lemma allowance_init_100:
  "acceptable_error_probability exact_floats (init (PyFloat (Finite 100))) = Inr (Finite 1)"
  using allowance_fresh_exact[of 100] by simp

lemma spend_1: "fadd exact_floats (Finite 0) (Finite 1) = Finite 1"
  using fl_exact[of 1] by simp

theorem C10_no_witness_tested_witness:
  "log4_sign_ok exact_floats \<and>
   acceptable_error_probability exact_floats (init (PyFloat (Finite 100))) = Inr (Finite 1) \<and>
   (1 :: real) \<le> 1 \<and> (3215031751 :: int) mod 2 \<noteq> 0 \<and>
   IsPrime exact_floats (init (PyFloat (Finite 100))) draw_ones 3215031751 =
     Some (Inr \<lparr>verdict = True,
             checker_after =
               (init (PyFloat (Finite 100)))\<lparr>cumulative_error_sofar := Finite 1,
                                             error_opportunity_count := 1\<rparr>,
             reports = [True], reporter_after = Some (Reporter (Finite 1) True)\<rparr>)"
proof -
  have 1: "(1 :: real) \<le> 1" by simp
  have 2: "(3215031751 :: int) mod 2 \<noteq> 0" by simp
  have 3: "(3215031751 :: int) \<le> 3215031751" by simp
  show ?thesis
    using C10_no_witness_tested [OF log4_sign_ok_exact allowance_init_100 1 2 3, of draw_ones]
      log4_sign_ok_exact allowance_init_100 spend_1
    by simp
qed

lemma allowance_init_inf:
  "acceptable_error_probability exact_floats (init (PyFloat PosInf)) = Inr PosInf"
  using float_of_int_exact[of 100]
  by (simp add: acceptable_error_probability_def fdiv_def)

text \<open>
  C10 as stated, for every allowance of at least 1, fails at an infinite one: on
  \<open>MillerRabinPrimeChecker(float('inf'))\<close> the allowance is \<open>inf\<close>, its logarithm is
  \<open>inf\<close>, and \<open>int(math.ceil(-inf))\<close> raises \<open>OverflowError\<close>, so \<open>IsPrime(3215031751)\<close>
  returns nothing.
\<close>

theorem C10_infinite_ceiling_counterexample:
  "acceptable_error_probability exact_floats (init (PyFloat PosInf)) = Inr PosInf \<and>
   fle (Finite 1) PosInf \<and>
   IsPrime exact_floats (init (PyFloat PosInf)) draw_ones 3215031751 = Some (Inl OverflowError)"
  by (simp add: allowance_init_inf randomized_call witness_count_def)

section \<open>The error budget along the calls\<close>

lemma number_default: "is_number exact_floats (PyFloat (Finite (1 / 10 ^ 12)))"
  using max_float_exact by simp

lemma after_calls_default_ones:
  "after_calls exact_floats (init (PyFloat (Finite (1 / 10 ^ 12)))) [(draw_ones, 3215031751)] =
     (init (PyFloat (Finite (1 / 10 ^ 12))))\<lparr>cumulative_error_sofar := Finite (1 / 10 ^ 14),
                                              error_opportunity_count := 1\<rparr>"
  using after_call_default_ones by (simp add: default_checker_def)


text \<open>
  C1, as the code has it. Take a checker built with a ceiling that is not negative: a
  float (finite or \<open>inf\<close>), or an integer that \<open>float\<close> converts without rounding or
  refuses. After every sequence of calls \<open>_cumulative_error_sofar\<close> is at most
  \<open>_max_cumulative_error\<close> (which never changes), and further calls make neither
  \<open>_cumulative_error_sofar\<close> nor \<open>_error_opportunity_count\<close> smaller. A call that raises
  counts as a call that changes nothing.
\<close>

theorem C1_budget_bounded:
  assumes "rounding_ok F" "is_number F M" "converted_exactly F M"
    "fle (Finite 0) (ceiling_value M)"
  shows "max_cumulative_error (after_calls F (init M) calls) = M \<and>
    fle (cumulative_error_sofar (after_calls F (init M) calls)) (ceiling_value M) \<and>
    fle (cumulative_error_sofar (after_calls F (init M) calls))
        (cumulative_error_sofar (after_calls F (init M) (calls @ later))) \<and>
    error_opportunity_count (after_calls F (init M) calls)
      \<le> error_opportunity_count (after_calls F (init M) (calls @ later))"
proof -
  have z: "rnd F 0 = 0" using assms(1) by (simp add: rounding_ok_def)
  have n0: "is_number F (max_cumulative_error (init M))" using assms(2) by (simp add: init_def)
  note first = after_calls_steps[OF assms(1) n0 budget_inv_init[OF z], of calls]
  let ?c1 = "after_calls F (init M) calls"
  have m1: "max_cumulative_error ?c1 = M" using first by (simp add: init_def)
  then have n1: "is_number F (max_cumulative_error ?c1)" using assms(2) by simp
  have i1: "budget_inv F ?c1" using first by simp
  note second = after_calls_steps[OF assms(1) n1 i1, of later]
  obtain x where x: "cumulative_error_sofar ?c1 = Finite x"
    "x = 0 \<or> (\<exists>m. as_float F M = Inr (Finite m) \<and> x \<le> m)"
    using i1 m1 by (auto simp: budget_inv_def)
  have "fle (Finite x) (ceiling_value M)"
  proof (cases "x = 0")
    case True
    then show ?thesis using assms(4) by simp
  next
    case False
    then obtain m where m: "as_float F M = Inr (Finite m)" "x \<le> m" using x(2) by blast
    then show ?thesis using as_float_exact[OF assms(3) m(1)] by simp
  qed
  then show ?thesis using m1 x(1) second by simp
qed

theorem C1_budget_bounded_witness:
  "rounding_ok exact_floats \<and> is_number exact_floats (PyFloat (Finite (1 / 10 ^ 12))) \<and>
   converted_exactly exact_floats (PyFloat (Finite (1 / 10 ^ 12))) \<and>
   fle (Finite 0) (ceiling_value (PyFloat (Finite (1 / 10 ^ 12)))) \<and>
   cumulative_error_sofar
     (after_calls exact_floats (init (PyFloat (Finite (1 / 10 ^ 12)))) [(draw_ones, 3215031751)])
     = Finite (1 / 10 ^ 14) \<and>
   fle (cumulative_error_sofar
          (after_calls exact_floats (init (PyFloat (Finite (1 / 10 ^ 12))))
             [(draw_ones, 3215031751)]))
       (ceiling_value (PyFloat (Finite (1 / 10 ^ 12))))"
proof -
  have 1: "converted_exactly exact_floats (PyFloat (Finite (1 / 10 ^ 12)))" by simp
  have 2: "fle (Finite 0) (ceiling_value (PyFloat (Finite (1 / 10 ^ 12))))" by simp
  show ?thesis
    using C1_budget_bounded [OF rounding_ok_exact number_default 1 2,
        of "[(draw_ones, 3215031751)]" "[]"]
      rounding_ok_exact number_default after_calls_default_ones
    by simp
qed

text \<open>
  C1 as stated, for every checker, fails: the constructor takes a negative ceiling as it
  is, and then \<open>_cumulative_error_sofar = 0\<close> is above it from the start and after every
  call, such as \<open>IsPrime(3)\<close>.
\<close>

theorem C1_negative_ceiling_counterexample:
  "IsPrime exact_floats (init (PyFloat (Finite (- 1)))) draw_ones 3 =
     Some (Inr \<lparr>verdict = True, checker_after = init (PyFloat (Finite (- 1))), reports = [True],
                reporter_after = Some NoopReporter\<rparr>) \<and>
   cumulative_error_sofar
     (after_calls exact_floats (init (PyFloat (Finite (- 1)))) [(draw_ones, 3)]) = Finite 0 \<and>
   max_cumulative_error
     (after_calls exact_floats (init (PyFloat (Finite (- 1)))) [(draw_ones, 3)])
     = PyFloat (Finite (- 1)) \<and>
   \<not> fle (Finite 0) (Finite (- 1))"
  by (simp add: IsPrime_3 after_call_def)



section \<open>The boundary between the regimes\<close>

text \<open>
  C9, as the code has it. \<open>IsPrime(3215031750)\<close> returns \<open>False\<close>. 3215031751 is not
  prime and belongs to the randomized regime: a call on it that has a finite positive
  allowance \<open>a\<close> returns, and its verdict is \<open>False\<close> exactly when one of the
  \<open>ceil(-log4(a))\<close> bases it draws is a witness. 11 is a witness; 2, 3, 5 and 7 are not.
\<close>

theorem C9_boundary:
  "IsPrime F c draw 3215031750 =
     Some (Inr \<lparr>verdict = False, checker_after = c, reports = [], reporter_after = None\<rparr>) \<and>
   \<not> trial_division_prime 3215031751 \<and>
   (\<forall>a. acceptable_error_probability F c = Inr (Finite a) \<and> 0 < a \<longrightarrow>
     (\<exists>res. IsPrime F c draw 3215031751 = Some (Inr res) \<and>
        (verdict res \<longleftrightarrow>
           (\<forall>i < nat \<lceil>- log4 F a\<rceil>.
              \<not> IsDefinitelyComposite (draw i) 3215031751 1607515875 1)))) \<and>
   IsDefinitelyComposite 11 3215031751 1607515875 1 \<and>
   \<not> IsDefinitelyComposite 2 3215031751 1607515875 1 \<and>
   \<not> IsDefinitelyComposite 3 3215031751 1607515875 1 \<and>
   \<not> IsDefinitelyComposite 5 3215031751 1607515875 1 \<and>
   \<not> IsDefinitelyComposite 7 3215031751 1607515875 1"
proof -
  have 1: "IsPrime F c draw 3215031750 =
     Some (Inr \<lparr>verdict = False, checker_after = c, reports = [], reporter_after = None\<rparr>)"
    by (simp add: IsPrime_def)
  have 3: "\<exists>res. IsPrime F c draw 3215031751 = Some (Inr res) \<and>
        (verdict res \<longleftrightarrow>
           (\<forall>i < nat \<lceil>- log4 F a\<rceil>.
              \<not> IsDefinitelyComposite (draw i) 3215031751 1607515875 1))"
    if "acceptable_error_probability F c = Inr (Finite a)" "0 < a" for a
    unfolding randomized_call [of 3215031751, simplified] halving_big' that(1) sum.case
      witness_count_pos[OF that(2)]
    by (simp add: bases_loop_map Let_def del: upt.simps)
  show ?thesis using 1 3 not_prime_3215031751 wit11 liar2 liar3 liar5 liar7 by simp
qed

theorem C9_boundary_witness:
  "acceptable_error_probability exact_floats default_checker = Inr (Finite (1 / 10 ^ 14)) \<and>
   (0 :: real) < 1 / 10 ^ 14 \<and>
   IsPrime exact_floats default_checker draw_elevens 3215031751 =
     Some (Inr \<lparr>verdict = False, checker_after = default_checker, reports = [False],
             reporter_after = Some (Reporter (Finite (1 / 10 ^ 14)) True)\<rparr>) \<and>
   \<not> (\<forall>i < nat \<lceil>- log4 exact_floats (1 / 10 ^ 14)\<rceil>.
              \<not> IsDefinitelyComposite (draw_elevens i) 3215031751 1607515875 1)"
proof -
  have p: "(0 :: real) < 1 / 10 ^ 14" by simp
  show ?thesis
    using C9_boundary [of exact_floats default_checker draw_elevens] allowance_default p
      IsPrime_default_elevens
    by auto
qed

text \<open>
  C9 as stated fails: on the default checker the call draws 24 bases, and when they
  are 2, 3, 5, 7 in turn \<open>IsPrime(3215031751)\<close> returns \<open>True\<close>, although 3215031751 is
  not prime.
\<close>

theorem C9_liars_counterexample:
  "IsPrime exact_floats default_checker draw_2357 3215031751 =
     Some (Inr \<lparr>verdict = True,
             checker_after =
               default_checker\<lparr>cumulative_error_sofar := Finite (1 / 10 ^ 14),
                               error_opportunity_count := 1\<rparr>,
             reports = [True],
             reporter_after = Some (Reporter (Finite (1 / 10 ^ 14)) True)\<rparr>) \<and>
   \<not> trial_division_prime 3215031751"
  using IsPrime_default_2357 not_prime_3215031751 by simp

section \<open>Primes pass every witness test\<close>

text \<open>
  Divisibility by a prime of the trial-division definition, Fermat's little theorem by
  the binomial theorem, and the square roots of 1 modulo a prime.
\<close>

lemma prime_divisors:
  assumes "trial_division_prime p" "d dvd p" "0 < d"
  shows "d = 1 \<or> d = p"
proof (rule ccontr)
  assume a: "\<not> (d = 1 \<or> d = p)"
  have p: "1 < p" and nd: "\<forall>d \<in> {2..<p}. p mod d \<noteq> 0"
    using assms(1) by (simp_all add: trial_division_prime_def)
  have "d \<le> p" using assms(2) p by (intro zdvd_imp_le) simp_all
  then have "d \<in> {2..<p}" using a assms(3) by simp
  with nd have "p mod d \<noteq> 0" by (rule bspec)
  then show False using assms(2) by (simp add: dvd_eq_mod_eq_0)
qed

lemma prime_coprime:
  assumes "trial_division_prime p" "\<not> p dvd a"
  shows "coprime p a"
proof -
  have p: "1 < p" using assms(1) by (simp add: trial_division_prime_def)
  have "gcd p a dvd p" by simp
  moreover have "0 < gcd p a" using p by (simp add: gcd_pos_int)
  ultimately have "gcd p a = 1 \<or> gcd p a = p" by (rule prime_divisors[OF assms(1)])
  moreover have "gcd p a \<noteq> p"
  proof
    assume "gcd p a = p"
    then have "p dvd a" by (metis gcd_dvd2)
    then show False using assms(2) by simp
  qed
  ultimately show ?thesis by (simp add: coprime_iff_gcd_eq_1)
qed

lemma prime_dvd_mult:
  assumes "trial_division_prime p" "p dvd a * b"
  shows "p dvd a \<or> p dvd b"
proof (cases "p dvd a")
  case True
  then show ?thesis by simp
next
  case False
  then have "coprime p a" by (rule prime_coprime[OF assms(1)])
  then show ?thesis using assms(2) by (simp add: coprime_dvd_mult_right_iff)
qed

lemma prime_dvd_choose:
  assumes "trial_division_prime p" "0 < k" "k < nat p"
  shows "p dvd int (nat p choose k)"
proof -
  have p: "1 < p" using assms(1) by (simp add: trial_division_prime_def)
  obtain j where k: "k = Suc j" using assms(2) by (cases k) auto
  have "Suc j * (nat p choose Suc j) = nat p * ((nat p - 1) choose j)"
    by (rule binomial_absorption)
  then have "int k * int (nat p choose k) = p * int ((nat p - 1) choose j)"
  proof -
    assume "Suc j * (nat p choose Suc j) = nat p * ((nat p - 1) choose j)"
    then have "int (Suc j * (nat p choose Suc j)) = int (nat p * ((nat p - 1) choose j))"
      by (rule arg_cong)
    then show ?thesis using p by (simp only: of_nat_mult k) simp
  qed
  then have "p dvd int k * int (nat p choose k)" by simp
  then have "p dvd int k \<or> p dvd int (nat p choose k)" by (rule prime_dvd_mult[OF assms(1)])
  moreover have "\<not> p dvd int k"
  proof
    assume "p dvd int k"
    then have "p \<le> int k" using assms(2) by (intro zdvd_imp_le) simp_all
    then show False using assms(3) by simp
  qed
  ultimately show ?thesis by simp
qed

lemma sum_ends:
  fixes f :: "nat \<Rightarrow> int"
  assumes "0 < n"
  shows "(\<Sum>k\<le>n. f k) = f 0 + (\<Sum>k \<in> {0<..<n}. f k) + f n"
proof -
  have "{..n} = insert 0 (insert n {0<..<n})" using assms by auto
  then show ?thesis using assms by simp
qed

lemma freshman:
  assumes "trial_division_prime p"
  shows "p dvd (a + 1) ^ nat p - a ^ nat p - 1"
proof -
  have p: "1 < p" using assms by (simp add: trial_division_prime_def)
  let ?f = "\<lambda>k. int (nat p choose k) * a ^ k"
  have "(a + 1) ^ nat p = (\<Sum>k\<le>nat p. of_nat (nat p choose k) * a ^ k * 1 ^ (nat p - k))"
    by (rule binomial_ring)
  then have "(a + 1) ^ nat p = (\<Sum>k\<le>nat p. ?f k)" by simp
  also have "\<dots> = ?f 0 + (\<Sum>k \<in> {0<..<nat p}. ?f k) + ?f (nat p)"
    using p by (intro sum_ends) simp
  finally have "(a + 1) ^ nat p - a ^ nat p - 1 = (\<Sum>k \<in> {0<..<nat p}. ?f k)" by simp
  moreover have "p dvd (\<Sum>k \<in> {0<..<nat p}. ?f k)"
  proof (rule dvd_sum)
    fix k assume "k \<in> {0<..<nat p}"
    then have "p dvd int (nat p choose k)" using prime_dvd_choose[OF assms, of k] by simp
    then show "p dvd ?f k" by (rule dvd_mult2)
  qed
  ultimately show ?thesis by simp
qed

lemma fermat_nat:
  assumes "trial_division_prime p"
  shows "p dvd int a ^ nat p - int a"
proof (induction a)
  case 0
  have "0 < nat p" using assms by (simp add: trial_division_prime_def)
  then show ?case by (auto simp: power_0_left)
next
  case (Suc a)
  have "int (Suc a) ^ nat p - int (Suc a) =
      ((int a + 1) ^ nat p - int a ^ nat p - 1) + (int a ^ nat p - int a)"
    by (simp add: add.commute)
  then show ?case using freshman[OF assms, of "int a"] Suc.IH by (simp only: dvd_add)
qed

lemma fermat_little:
  assumes "trial_division_prime p" "1 \<le> a" "a \<le> p - 1"
  shows "a ^ nat (p - 1) mod p = 1"
proof -
  have p: "1 < p" using assms(1) by (simp add: trial_division_prime_def)
  have nd: "\<not> p dvd a"
  proof
    assume "p dvd a"
    then have "p \<le> a" using assms(2) by (intro zdvd_imp_le) simp_all
    then show False using assms(3) by simp
  qed
  have "nat p = Suc (nat (p - 1))" using p by simp
  then have "a ^ nat p - a = a * (a ^ nat (p - 1) - 1)" by (simp add: algebra_simps)
  moreover have "p dvd a ^ nat p - a" using fermat_nat[OF assms(1), of "nat a"] assms(2) by simp
  ultimately have "p dvd a * (a ^ nat (p - 1) - 1)" by simp
  then have "p dvd a ^ nat (p - 1) - 1" using prime_dvd_mult[OF assms(1)] nd by blast
  then have "a ^ nat (p - 1) mod p = 1 mod p" by (simp add: mod_eq_dvd_iff)
  then show ?thesis using p by simp
qed

lemma sqrt_one:
  assumes "trial_division_prime p" "(x * x) mod p = 1"
  shows "x mod p = 1 \<or> x mod p = p - 1"
proof -
  have p: "1 < p" using assms(1) by (simp add: trial_division_prime_def)
  have "(x * x) mod p = 1 mod p" using assms(2) p by simp
  then have "p dvd x * x - 1" by (simp add: mod_eq_dvd_iff)
  moreover have "x * x - 1 = (x - 1) * (x + 1)" by (simp add: algebra_simps)
  ultimately have "p dvd x - 1 \<or> p dvd x + 1" using prime_dvd_mult[OF assms(1)] by simp
  then show ?thesis
  proof
    assume "p dvd x - 1"
    then have "x mod p = 1 mod p" by (simp add: mod_eq_dvd_iff)
    then show ?thesis using p by simp
  next
    assume "p dvd x + 1"
    then have "p dvd (x + 1) - p" by (rule dvd_diff) simp
    moreover have "(x + 1) - p = x - (p - 1)" by simp
    ultimately have "p dvd x - (p - 1)" by (simp only:)
    then have "x mod p = (p - 1) mod p" by (rule mod_eq_dvd_iff[THEN iffD2])
    moreover have "(p - 1) mod p = p - 1" by (rule mod_pos_pos_trivial) (use p in simp_all)
    ultimately have "x mod p = p - 1" by (simp only:)
    then show ?thesis by (rule disjI2)
  qed
qed

text \<open>A sequence of squares that ends in 1 and does not start there passes through \<open>n - 1\<close>.\<close>

lemma squaring_loop_prime:
  assumes "trial_division_prime n"
  shows "x mod n = x \<Longrightarrow> x \<noteq> 1 \<Longrightarrow> x ^ (2 ^ r) mod n = 1 \<Longrightarrow> \<not> squaring_loop x n r"
proof (induction r arbitrary: x)
  case 0
  then show ?case by simp
next
  case (Suc r)
  show ?case
  proof (cases "x = n - 1")
    case True
    then show ?thesis by simp
  next
    case False
    let ?y = "(x * x) mod n"
    have y: "?y mod n = ?y" by simp
    have "?y ^ (2 ^ r) mod n = (x * x) ^ (2 ^ r) mod n" by (simp add: power_mod)
    also have "(x * x) ^ (2 ^ r) = x ^ (2 ^ Suc r)"
      by (simp add: power_mult power2_eq_square flip: power_mult_distrib)
    finally have e: "?y ^ (2 ^ r) mod n = 1" using Suc.prems(3) by simp
    have "?y \<noteq> 1"
    proof
      assume "?y = 1"
      then have "x mod n = 1 \<or> x mod n = n - 1" by (rule sqrt_one[OF assms])
      then show False using Suc.prems(1,2) False by simp
    qed
    then have "\<not> squaring_loop ?y n r" using Suc.IH[OF y _ e] by simp
    then show ?thesis using False by simp
  qed
qed

lemma prime_passes:
  assumes "trial_division_prime n" "1 \<le> base" "base \<le> n - 1" "n - 1 = 2 ^ r * d"
  shows "\<not> IsDefinitelyComposite base n d r"
proof (cases "pow base d n = 1")
  case True
  then show ?thesis by (simp add: IsDefinitelyComposite_def)
next
  case False
  have n: "1 < n" using assms(1) by (simp add: trial_division_prime_def)
  have d: "0 \<le> d"
  proof (rule ccontr)
    assume "\<not> 0 \<le> d"
    then have "2 ^ r * d < 0" by (simp add: mult_less_0_iff)
    then show False using assms(4) n by simp
  qed
  have "nat (n - 1) = nat d * 2 ^ r"
    using assms(4) d by (simp add: nat_mult_distrib nat_power_eq mult.commute)
  then have "base ^ nat (n - 1) = (base ^ nat d) ^ (2 ^ r)" by (simp add: power_mult)
  then have "(base ^ nat d) ^ (2 ^ r) mod n = 1"
    using fermat_little[OF assms(1,2,3)] by simp
  then have "pow base d n ^ (2 ^ r) mod n = 1" by (simp add: pow_def power_mod)
  moreover have "pow base d n mod n = pow base d n" by (simp add: pow_def)
  ultimately have "\<not> squaring_loop (pow base d n) n r"
    using False by (intro squaring_loop_prime[OF assms(1)])
  then show ?thesis using False by (simp add: IsDefinitelyComposite_def)
qed

lemma prime_odd_or_2:
  assumes "trial_division_prime n" "n \<noteq> 2"
  shows "\<not> n \<le> 1" "n mod 2 \<noteq> 0"
proof -
  have n: "1 < n" and nd: "\<forall>d \<in> {2..<n}. n mod d \<noteq> 0"
    using assms(1) by (simp_all add: trial_division_prime_def)
  show "\<not> n \<le> 1" using n by simp
  have "(2 :: int) \<in> {2..<n}" using n assms(2) by simp
  with nd show "n mod 2 \<noteq> 0" by (rule bspec)
qed

text \<open>Prime divisors, and a way to certify a large prime.\<close>

lemma prime_divisor_exists:
  "1 < n \<Longrightarrow> \<exists>p. trial_division_prime p \<and> p dvd n"
proof (induction "nat n" arbitrary: n rule: less_induct)
  case less
  show ?case
  proof (cases "trial_division_prime n")
    case True
    then show ?thesis by (intro exI[of _ n]) simp
  next
    case False
    then obtain d where d: "d \<in> {2..<n}" "n mod d = 0"
      using less.prems by (auto simp: trial_division_prime_def)
    then have "nat d < nat n" "1 < d" by simp_all
    from less.hyps[OF this] obtain p where "trial_division_prime p" "p dvd d" by blast
    moreover have "d dvd n" using d(2) by (simp add: dvd_eq_mod_eq_0)
    ultimately show ?thesis using dvd_trans by blast
  qed
qed

lemma small_prime_divisor:
  assumes "1 < n" "\<not> trial_division_prime n"
  shows "\<exists>p. trial_division_prime p \<and> p dvd n \<and> p * p \<le> n"
proof -
  obtain d where d: "d \<in> {2..<n}" "n mod d = 0"
    using assms by (auto simp: trial_division_prime_def)
  then obtain m where m: "n = d * m" by (auto simp: mod_eq_0_iff_dvd)
  have d2: "2 \<le> d" "d < n" using d(1) by simp_all
  have m2: "2 \<le> m"
  proof (rule ccontr)
    assume "\<not> 2 \<le> m"
    then have "m \<le> 1" by simp
    then have "d * m \<le> d * 1" using d2 by (intro mult_left_mono) simp_all
    then show False using m d2 by simp
  qed
  define e where "e = min d m"
  have e: "2 \<le> e" "e dvd n" "e * e \<le> n"
  proof -
    show "2 \<le> e" using d2 m2 by (simp add: e_def)
    show "e dvd n" using m by (auto simp: e_def min_def)
    have "e * e \<le> d * m" using d2 m2 by (intro mult_mono) (simp_all add: e_def)
    then show "e * e \<le> n" using m by simp
  qed
  obtain p where p: "trial_division_prime p" "p dvd e"
    using prime_divisor_exists[of e] e(1) by auto
  have "0 < p" using p(1) by (simp add: trial_division_prime_def)
  have "p \<le> e" using p(2) e(1) by (intro zdvd_imp_le) simp_all
  then have "p * p \<le> e * e" using \<open>0 < p\<close> by (intro mult_mono) simp_all
  moreover have "p dvd n" using p(2) e(2) by (rule dvd_trans)
  ultimately show ?thesis using p(1) e(3) by (intro exI[of _ p]) simp
qed

lemma power_gcd_one:
  fixes x p :: int
  assumes p: "1 < p"
  shows "x ^ a mod p = 1 \<Longrightarrow> x ^ b mod p = 1 \<Longrightarrow> x ^ gcd a b mod p = 1"
proof (induction a b rule: gcd_nat_induct)
  case (base m)
  then show ?case by simp
next
  case (step m n)
  have "x ^ m = (x ^ n) ^ (m div n) * x ^ (m mod n)"
    by (simp flip: power_mult power_add)
  then have "x ^ m mod p = ((x ^ n mod p) ^ (m div n) mod p) * (x ^ (m mod n) mod p) mod p"
    by (simp add: mod_mult_eq power_mod)
  then have "x ^ (m mod n) mod p = 1" using step.prems p by simp
  then have "x ^ gcd n (m mod n) mod p = 1" using step.prems(2) by (intro step.IH)
  then show ?case by (subst gcd_red_nat)
qed

text \<open>
  A criterion of Proth: for \<open>n = R * 2 ^ k + 1\<close> with \<open>0 < R < 2 ^ k\<close>, a base whose power
  \<open>(n - 1) / 2\<close> is \<open>- 1\<close> modulo \<open>n\<close> proves that \<open>n\<close> is prime.
\<close>

lemma proth_factor:
  assumes p: "trial_division_prime p" and pn: "p dvd n" and k: "0 < k"
    and n: "n = R * 2 ^ k + 1" and a: "a ^ (nat R * 2 ^ (k - 1)) mod n = n - 1" and R: "0 < R"
  shows "2 ^ k < p"
proof -
  have p1: "1 < p" using p by (simp add: trial_division_prime_def)
  have n1: "1 < n" using n R by (simp add: less_1_mult)
  define b where "b = a ^ nat R"
  have "b ^ (2 ^ (k - 1)) mod p = (a ^ (nat R * 2 ^ (k - 1)) mod n) mod p"
    using pn by (simp add: b_def power_mult mod_mod_cancel)
  also have "\<dots> = (n - 1) mod p" using a by simp
  also have "\<dots> = (p - 1) mod p"
  proof -
    have "p dvd (n - 1) - (p - 1)" using pn by simp
    then show ?thesis by (rule mod_eq_dvd_iff[THEN iffD2])
  qed
  also have "\<dots> = p - 1" by (rule mod_pos_pos_trivial) (use p1 in simp_all)
  finally have half: "b ^ (2 ^ (k - 1)) mod p = p - 1" .
  have p2: "p \<noteq> 2"
  proof
    assume "p = 2"
    then have "even n" using pn by simp
    moreover have "odd n" using n k by simp
    ultimately show False by simp
  qed
  have "(2 :: nat) ^ k = 2 ^ (k - 1) + 2 ^ (k - 1)" using k by (cases k) simp_all
  then have "b ^ (2 ^ k) = b ^ (2 ^ (k - 1)) * b ^ (2 ^ (k - 1))"
    by (simp only: power_add)
  then have "b ^ (2 ^ k) mod p = (p - 1) * (p - 1) mod p"
    using half by (metis mod_mult_eq)
  also have "(p - 1) * (p - 1) = p * (p - 2) + 1" by (simp add: algebra_simps)
  also have "(p * (p - 2) + 1) mod p = 1" using p1 by simp
  finally have full: "b ^ (2 ^ k) mod p = 1" .
  have nd: "\<not> p dvd b"
  proof
    assume "p dvd b"
    moreover have "b dvd b ^ (2 ^ k)" by (rule dvd_power) simp
    ultimately have "p dvd b ^ (2 ^ k)" by (rule dvd_trans)
    then show False using full by (simp add: dvd_eq_mod_eq_0)
  qed
  have fermat: "b ^ nat (p - 1) mod p = 1"
  proof -
    have "(b mod p) ^ nat (p - 1) mod p = 1"
    proof (rule fermat_little[OF p])
      have "0 \<le> b mod p" "b mod p < p" using p1 by simp_all
      moreover have "b mod p \<noteq> 0" using nd by (simp add: dvd_eq_mod_eq_0)
      ultimately show "1 \<le> b mod p" "b mod p \<le> p - 1" by simp_all
    qed
    then show ?thesis by (simp add: power_mod)
  qed
  obtain m j where mj: "odd m" "p - 1 = m * 2 ^ j"
    using halving_loop_total[of "p - 1" 0] p1 by auto
  have m0: "0 < m"
  proof (rule ccontr)
    assume "\<not> 0 < m"
    then have "m * 2 ^ j \<le> 0" by (simp add: mult_le_0_iff)
    then show False using mj(2) p1 by simp
  qed
  have "k \<le> j"
  proof (rule ccontr)
    assume "\<not> k \<le> j"
    then have jk: "j \<le> k - 1" by simp
    have e: "nat (p - 1) = 2 ^ j * nat m"
      using mj(2) m0 by (simp add: nat_mult_distrib nat_power_eq mult.commute)
    have "2 ^ k = (2 :: nat) ^ j * 2 ^ (k - j)" using jk by (simp flip: power_add)
    then have "gcd (nat (p - 1)) (2 ^ k) = 2 ^ j * gcd (nat m) (2 ^ (k - j))"
      unfolding e by (simp add: gcd_mult_distrib_nat)
    moreover have "coprime (nat m) (2 ^ (k - j))"
    proof -
      have "odd (nat m)" using mj(1) m0 by (simp add: even_nat_iff)
      then show ?thesis by simp
    qed
    ultimately have g: "gcd (nat (p - 1)) (2 ^ k) = 2 ^ j" by simp
    have "b ^ gcd (nat (p - 1)) (2 ^ k) mod p = 1"
      using fermat full by (rule power_gcd_one[OF p1])
    then have "b ^ (2 ^ j) mod p = 1" by (simp only: g)
    moreover have "(2 :: nat) ^ (k - 1) = 2 ^ j * 2 ^ (k - 1 - j)"
      using jk by (simp flip: power_add)
    ultimately have "b ^ (2 ^ (k - 1)) mod p = 1"
      by (metis power_mult power_mod power_one mod_mod_trivial)
    then show False using half p1 p2 by simp
  qed
  then have "(2 :: int) ^ k dvd 2 ^ j" by (rule le_imp_power_dvd)
  then have "2 ^ k dvd p - 1" using mj(2) by simp
  then have "2 ^ k \<le> p - 1" using p1 by (intro zdvd_imp_le) simp_all
  then show ?thesis by simp
qed

lemma proth:
  assumes k: "0 < k" and n: "n = R * 2 ^ k + 1" and R: "0 < R" "R < 2 ^ k"
    and a: "a ^ (nat R * 2 ^ (k - 1)) mod n = n - 1"
  shows "trial_division_prime n"
proof (rule ccontr)
  assume np: "\<not> trial_division_prime n"
  have n1: "1 < n" using n R by (simp add: less_1_mult)
  from small_prime_divisor[OF n1 np]
  obtain p where p: "trial_division_prime p" "p dvd n" "p * p \<le> n" by blast
  have big: "2 ^ k < p" using proth_factor[OF p(1,2) k n a R(1)] .
  have "n \<le> (2 ^ k - 1) * 2 ^ k + 1" using R(2) n by simp
  also have "\<dots> < 2 ^ k * 2 ^ k"
  proof -
    have "(1 :: int) < 2 ^ k" using k by (intro one_less_power) simp_all
    then show ?thesis by (simp add: algebra_simps)
  qed
  also have "\<dots> < p * p"
  proof -
    have "(0 :: int) < 2 ^ k" by simp
    then have "0 < p" using big by (rule less_trans)
    then show ?thesis using big by (intro mult_strict_mono) simp_all
  qed
  finally show False using p(3) by simp
qed

text \<open>Concrete primes: 17, and 3238002689 = 193 * 2 ^ 24 + 1 above the threshold.\<close>

lemma prime_3238002689: "trial_division_prime 3238002689"
proof (rule proth[of 24 _ 193 3])
  show "(3238002689 :: int) = 193 * 2 ^ 24 + 1" by simp
  have "pow 3 1619001344 3238002689 = 3238002688" by (simp add: pow_numeral)
  moreover have "nat 193 * 2 ^ (24 - 1) = nat 1619001344" by simp
  ultimately show "(3 :: int) ^ (nat 193 * 2 ^ (24 - 1)) mod 3238002689 = 3238002689 - 1"
    by (simp only: pow_def)
qed simp_all

lemma IsPrime_exhausted_3238002689:
  "IsPrime exact_floats (init (PyFloat (Finite 0))) draw_ones 3238002689 = Some (Inl ValueError)"
  by (subst randomized_call) (simp_all add: allowance_init_0 witness_count_def)

lemma prime_17: "trial_division_prime 17"
proof -
  have "{2..<17 :: int} = {2..16}"
    using atLeastLessThanPlusOne_atLeastAtMost_int[of 2 16] by simp
  also have "\<dots> = set [2..16]" by (simp only: set_upto)
  finally show ?thesis by (simp add: trial_division_prime_def)
qed

lemma halving_16: "halving_loop 16 0 = Some (1, 4)"
  by (simp add: halving_loop.simps)

lemma IsPrime_17: "IsPrime F c draw 17 =
   Some (Inr \<lparr>verdict = True, checker_after = c, reports = [True],
              reporter_after = Some NoopReporter\<rparr>)"
  by (simp add: IsPrime_def halving_16 GetBasesGenAndReporter_def IsDefinitelyComposite_def
      pow_One eval_nat_numeral call_reporter_eq)

text \<open>
  C3, as the code has it. For a prime \<open>n\<close> and a base in \<open>[1, n - 1]\<close> the single-witness
  test, with \<open>n - 1 = 2 ^ r * d\<close> and \<open>d\<close> odd, returns \<open>False\<close>. So \<open>IsPrime(n)\<close> never
  returns \<open>False\<close> for a prime \<open>n\<close>, whatever bases in \<open>[1, n - 1]\<close> are drawn, and it
  returns \<open>True\<close> in the deterministic regime and, in the randomized regime, whenever the
  allowance of the call is finite and positive (otherwise the call raises, see C8 and
  C10).
\<close>

theorem C3_prime_passes:
  assumes "trial_division_prime n"
  shows "(\<forall>base d r. 1 \<le> base \<and> base \<le> n - 1 \<and> odd d \<and> n - 1 = 2 ^ r * d
            \<longrightarrow> \<not> IsDefinitelyComposite base n d r) \<and>
         ((\<forall>i. 1 \<le> draw i \<and> draw i \<le> n - 1) \<longrightarrow>
            (\<forall>res. IsPrime F c draw n = Some (Inr res) \<longrightarrow> verdict res) \<and>
            (n < 3215031751 \<or>
             (\<exists>a. acceptable_error_probability F c = Inr (Finite a) \<and> 0 < a) \<longrightarrow>
               (\<exists>res. IsPrime F c draw n = Some (Inr res) \<and> verdict res)))"
proof -
  have single: "\<not> IsDefinitelyComposite base n d r"
    if "1 \<le> base" "base \<le> n - 1" "n - 1 = 2 ^ r * d" for base d r
    using prime_passes[OF assms that] .
  have call: "(\<forall>res. IsPrime F c draw n = Some (Inr res) \<longrightarrow> verdict res) \<and>
            (n < 3215031751 \<or>
             (\<exists>a. acceptable_error_probability F c = Inr (Finite a) \<and> 0 < a) \<longrightarrow>
               (\<exists>res. IsPrime F c draw n = Some (Inr res) \<and> verdict res))"
    if draws: "\<forall>i. 1 \<le> draw i \<and> draw i \<le> n - 1"
  proof (cases "n = 2")
    case True
    then show ?thesis by (simp add: IsPrime_def)
  next
    case False
    note odd = prime_odd_or_2[OF assms False]
    from False odd show ?thesis
    proof (cases rule: IsPrime_odd_cases[of n F c draw])
      case (raises e)
      have "\<not> n < 3215031751" using raises(1) by (auto simp: GetBasesGenAndReporter_def)
      moreover have False if "acceptable_error_probability F c = Inr (Finite a)" "0 < a" for a
        using raises(1) that(1) witness_count_pos[OF that(2), of F]
        by (auto simp: GetBasesGenAndReporter_def split: if_splits)
      ultimately show ?thesis using raises(2) by auto
    next
      case (returns d r bases_gen reporter)
      have "\<forall>base \<in> set bases_gen. 1 \<le> base \<and> base \<le> n - 1"
        using returns(4) draws
        by (auto simp: GetBasesGenAndReporter_def split: if_splits sum.splits)
      then have "bases_loop bases_gen n d r"
        using returns(3) single by (simp add: bases_loop_iff mult.commute)
      then show ?thesis using returns(5) by simp
    qed
  qed
  show ?thesis using single call by blast
qed

theorem C3_prime_passes_witness:
  "trial_division_prime 17 \<and> (1 :: int) \<le> 3 \<and> (3 :: int) \<le> 17 - 1 \<and> odd (1 :: int) \<and>
   (17 :: int) - 1 = 2 ^ 4 * 1 \<and> \<not> IsDefinitelyComposite 3 17 1 4 \<and>
   (\<forall>i. 1 \<le> draw_ones i \<and> draw_ones i \<le> 17 - 1) \<and> (17 :: int) < 3215031751 \<and>
   IsPrime exact_floats default_checker draw_ones 17 =
     Some (Inr \<lparr>verdict = True, checker_after = default_checker, reports = [True],
              reporter_after = Some NoopReporter\<rparr>) \<and>
   trial_division_prime 3238002689 \<and>
   (\<forall>i. 1 \<le> draw_2357 i \<and> draw_2357 i \<le> 3238002689 - 1) \<and>
   acceptable_error_probability exact_floats default_checker = Inr (Finite (1 / 10 ^ 14)) \<and>
   (0 :: real) < 1 / 10 ^ 14 \<and>
   (\<exists>res. IsPrime exact_floats default_checker draw_2357 3238002689 = Some (Inr res) \<and>
      verdict res)"
proof -
  have d: "\<forall>i. 1 \<le> draw_ones i \<and> draw_ones i \<le> 17 - 1" by (simp add: draw_ones_def)
  have a: "(1 :: int) \<le> 3 \<and> (3 :: int) \<le> 17 - 1 \<and> odd (1 :: int) \<and> (17 :: int) - 1 = 2 ^ 4 * 1"
    by simp
  from C3_prime_passes [OF prime_17, of draw_ones exact_floats default_checker] a
  have small: "\<not> IsDefinitelyComposite 3 17 1 4" by blast
  have d': "\<forall>i. 1 \<le> draw_2357 i \<and> draw_2357 i \<le> 3238002689 - 1"
  proof
    fix i
    show "1 \<le> draw_2357 i \<and> draw_2357 i \<le> 3238002689 - 1"
      using draw_2357_cases[of i] by auto
  qed
  have p: "\<exists>a. acceptable_error_probability exact_floats default_checker = Inr (Finite a) \<and> 0 < a"
    using allowance_default by (intro exI[of _ "1 / 10 ^ 14"]) simp
  from C3_prime_passes [OF prime_3238002689, of draw_2357 exact_floats default_checker] d' p
  have big: "\<exists>res. IsPrime exact_floats default_checker draw_2357 3238002689 = Some (Inr res) \<and>
      verdict res" by blast
  show ?thesis
    using prime_17 d a IsPrime_17 small prime_3238002689 d' allowance_default big by simp
qed

text \<open>
  C3 as stated ("returns true for every prime n") fails where the budget is exhausted:
  on a checker built with a ceiling of 0 the call on the prime 3238002689 raises
  \<open>ValueError\<close> and returns nothing.
\<close>

theorem C3_exhausted_budget_counterexample:
  "trial_division_prime 3238002689 \<and>
   IsPrime exact_floats (init (PyFloat (Finite 0))) draw_ones 3238002689 = Some (Inl ValueError)"
  using prime_3238002689 IsPrime_exhausted_3238002689 by simp

section \<open>The witness count and the bookkeeping\<close>

text \<open>With an exact logarithm the witness count is the least k with 4^(-k) <= allowance.\<close>

lemma witness_count_exact_least:
  assumes "0 < a"
  shows "\<exists>k. witness_count exact_floats (Finite a) = Inr k \<and> 4 powr (- real_of_int k) \<le> a \<and>
             (\<forall>j. 4 powr (- real_of_int j) \<le> a \<longrightarrow> k \<le> j)"
proof -
  let ?k = "\<lceil>- log 4 a\<rceil>"
  have w: "witness_count exact_floats (Finite a) = Inr ?k"
    using witness_count_pos[OF assms, of exact_floats] by simp
  have iff: "4 powr (- real_of_int j) \<le> a \<longleftrightarrow> - log 4 a \<le> real_of_int j" for j
  proof -
    have "4 powr (- real_of_int j) \<le> a \<longleftrightarrow> - real_of_int j \<le> log 4 a"
      using assms by (simp add: le_log_iff)
    then show ?thesis by linarith
  qed
  have "4 powr (- real_of_int ?k) \<le> a" unfolding iff by (rule le_of_int_ceiling)
  moreover have "?k \<le> j" if "4 powr (- real_of_int j) \<le> a" for j
    using that unfolding iff by (simp add: ceiling_le_iff)
  ultimately show ?thesis using w by blast
qed

text \<open>A randomized call that answers "prime" adds the allowance it computed at its start.\<close>

lemma spent_allowance:
  assumes "n mod 2 \<noteq> 0" "3215031751 \<le> n" "IsPrime F c draw n = Some (Inr res)" "verdict res"
  shows "\<exists>a. acceptable_error_probability F c = Inr a \<and>
      checker_after res =
        c\<lparr>cumulative_error_sofar := fadd F (cumulative_error_sofar c) a,
          error_opportunity_count := error_opportunity_count c + 1\<rparr> \<and>
      reporter_after res = Some (Reporter a True)"
  using assms(3,4) unfolding randomized_call[OF assms(1,2)]
  by (auto simp: Let_def split: sum.splits option.splits prod.splits)

text \<open>The two sample points of the rounding and of the logarithm.\<close>

lemma max_float_samples: "100 \<le> max_float binary64_samples"
  by (simp add: binary64_samples_def)

lemma rnd_samples:
  "rnd binary64_samples (25 / 4 - 1 / 2 ^ 50) = 25 / 4 - 1 / 2 ^ 50"
  "rnd binary64_samples ((25 / 4 - 1 / 2 ^ 50) / 100) = 1 / 16 - 1 / 2 ^ 57"
  "rnd binary64_samples (1 / 16 - 1 / 2 ^ 57) = 1 / 16 - 1 / 2 ^ 57"
  "rnd binary64_samples (100 / 4 ^ 29) = 100 / 4 ^ 29"
  "rnd binary64_samples (1 / 4 ^ 29) = 1 / 4 ^ 29"
  "rnd binary64_samples 100 = 100"
  by (simp_all add: binary64_samples_def)

lemma log4_samples:
  "log4 binary64_samples (1 / 16 - 1 / 2 ^ 57) = - 2"
  "log4 binary64_samples (1 / 4 ^ 29) = - (29 + 1 / 2 ^ 48)"
  by (simp_all add: binary64_samples_def)

lemma fl_samples:
  "fl binary64_samples (25 / 4 - 1 / 2 ^ 50) = Finite (25 / 4 - 1 / 2 ^ 50)"
  "fl binary64_samples ((25 / 4 - 1 / 2 ^ 50) / 100) = Finite (1 / 16 - 1 / 2 ^ 57)"
  "fl binary64_samples (1 / 16 - 1 / 2 ^ 57) = Finite (1 / 16 - 1 / 2 ^ 57)"
  "fl binary64_samples (100 / 4 ^ 29) = Finite (100 / 4 ^ 29)"
  "fl binary64_samples (1 / 4 ^ 29) = Finite (1 / 4 ^ 29)"
  unfolding fl_def rnd_samples using max_float_samples by auto

lemma float_of_int_samples: "float_of_int binary64_samples 100 = Inr 100"
  using max_float_samples rnd_samples(6) by (simp add: float_of_int_def)

lemma allowance_samples:
  "acceptable_error_probability binary64_samples (init (PyFloat (Finite (25 / 4 - 1 / 2 ^ 50))))
     = Inr (Finite (1 / 16 - 1 / 2 ^ 57))"
  "acceptable_error_probability binary64_samples (init (PyFloat (Finite (100 / 4 ^ 29))))
     = Inr (Finite (1 / 4 ^ 29))"
  using float_of_int_samples fl_samples
  by (simp_all add: acceptable_error_probability_def fdiv_def)

lemma ceiling_29: "\<lceil>29 + 1 / 2 ^ 48 :: real\<rceil> = 30"
proof (rule ceiling_unique)
  show "real_of_int 30 - 1 < 29 + 1 / 2 ^ 48" by simp
  show "29 + 1 / 2 ^ 48 \<le> real_of_int 30" by simp
qed

lemma witness_count_samples:
  "witness_count binary64_samples (Finite (1 / 16 - 1 / 2 ^ 57)) = Inr 2"
  "witness_count binary64_samples (Finite (1 / 4 ^ 29)) = Inr 30"
proof -
  have "witness_count binary64_samples (Finite (1 / 16 - 1 / 2 ^ 57)) =
      Inr \<lceil>- log4 binary64_samples (1 / 16 - 1 / 2 ^ 57)\<rceil>"
    by (rule witness_count_pos) simp
  then show "witness_count binary64_samples (Finite (1 / 16 - 1 / 2 ^ 57)) = Inr 2"
    unfolding log4_samples by simp
  have "witness_count binary64_samples (Finite (1 / 4 ^ 29)) =
      Inr \<lceil>- log4 binary64_samples (1 / 4 ^ 29)\<rceil>"
    by (rule witness_count_pos) simp
  then show "witness_count binary64_samples (Finite (1 / 4 ^ 29)) = Inr 30"
    unfolding log4_samples using ceiling_29 by simp
qed

text \<open>
  C4 fails on the code. The comment in \<open>_GetBasesGenAndReporter\<close> states
  \<open>4 ** -k <= acceptable_error_probability_for_this_n\<close>, and the claim that \<open>k\<close> is the
  smallest such integer. On \<open>MillerRabinPrimeChecker(6.249999999999999)\<close> the allowance of
  the first randomized call is \<open>0.06249999999999999 = 1/16 - 2^-57\<close>, the logarithm
  returns \<open>-2.0\<close> and \<open>k = 2\<close>, although \<open>4^-2 = 1/16\<close> is above the allowance. On
  \<open>MillerRabinPrimeChecker(100 * 4.0 ** -29)\<close> the allowance is \<open>4^-29\<close>, the logarithm
  returns \<open>-29.000000000000004\<close> and \<open>k = 30\<close>, although 29 would do.
\<close>

theorem C4_witness_count_not_least:
  "acceptable_error_probability binary64_samples (init (PyFloat (Finite (25 / 4 - 1 / 2 ^ 50))))
     = Inr (Finite (1 / 16 - 1 / 2 ^ 57)) \<and>
   witness_count binary64_samples (Finite (1 / 16 - 1 / 2 ^ 57)) = Inr 2 \<and>
   GetBasesGenAndReporter binary64_samples (init (PyFloat (Finite (25 / 4 - 1 / 2 ^ 50))))
       draw_2357 3215031751
     = Inr (map draw_2357 [0..<2], Reporter (Finite (1 / 16 - 1 / 2 ^ 57)) False) \<and>
   \<not> (1 / 4 ^ 2 \<le> (1 / 16 - 1 / 2 ^ 57 :: real)) \<and>
   acceptable_error_probability binary64_samples (init (PyFloat (Finite (100 / 4 ^ 29))))
     = Inr (Finite (1 / 4 ^ 29)) \<and>
   witness_count binary64_samples (Finite (1 / 4 ^ 29)) = Inr 30 \<and>
   GetBasesGenAndReporter binary64_samples (init (PyFloat (Finite (100 / 4 ^ 29))))
       draw_2357 3215031751
     = Inr (map draw_2357 [0..<30], Reporter (Finite (1 / 4 ^ 29)) False) \<and>
   1 / 4 ^ 29 \<le> (1 / 4 ^ 29 :: real)"
proof -
  have two: "nat 2 = 2" and thirty: "nat 30 = 30" by simp_all
  have 1: "GetBasesGenAndReporter binary64_samples
       (init (PyFloat (Finite (25 / 4 - 1 / 2 ^ 50)))) draw_2357 3215031751
     = Inr (map draw_2357 [0..<2], Reporter (Finite (1 / 16 - 1 / 2 ^ 57)) False)"
    unfolding GetBasesGenAndReporter_def allowance_samples sum.case witness_count_samples
    using two by (simp only: if_False less_irrefl)
  have 2: "GetBasesGenAndReporter binary64_samples
       (init (PyFloat (Finite (100 / 4 ^ 29)))) draw_2357 3215031751
     = Inr (map draw_2357 [0..<30], Reporter (Finite (1 / 4 ^ 29)) False)"
    unfolding GetBasesGenAndReporter_def allowance_samples sum.case witness_count_samples
    using thirty by (simp only: if_False less_irrefl)
  have 3: "\<not> (1 / 4 ^ 2 \<le> (1 / 16 - 1 / 2 ^ 57 :: real))" by simp
  have 4: "1 / 4 ^ 29 \<le> (1 / 4 ^ 29 :: real)" by (rule order_refl)
  show ?thesis
    by (intro conjI allowance_samples witness_count_samples 1 2 3 4)
qed

section \<open>The trivial cases\<close>

text \<open>\<open>IsPrime(2)\<close> is \<open>True\<close>; \<open>IsPrime(n)\<close> is \<open>False\<close> for \<open>n \<le> 1\<close> and for an even \<open>n\<close> other than 2.\<close>

lemma trivial_cases:
  "IsPrime F c draw 2 =
     Some (Inr \<lparr>verdict = True, checker_after = c, reports = [], reporter_after = None\<rparr>)"
  "n \<le> 1 \<Longrightarrow> IsPrime F c draw n =
     Some (Inr \<lparr>verdict = False, checker_after = c, reports = [], reporter_after = None\<rparr>)"
  "n mod 2 = 0 \<Longrightarrow> n \<noteq> 2 \<Longrightarrow> IsPrime F c draw n =
     Some (Inr \<lparr>verdict = False, checker_after = c, reports = [], reporter_after = None\<rparr>)"
  by (simp_all add: IsPrime_def)

end
